theory Spec2Isabelle
  imports Main "HOL-Library.Word" "HOL-Library.Sublist"
begin

section \<open>Colours and the colour matcher\<close>

text \<open>
  \<^verbatim>\<open>color.RGBA\<close> of the Go standard library: four 8-bit channels. The zero value
  \<^verbatim>\<open>color.RGBA{}\<close> has every channel 0.
\<close>

type_synonym uint8 = "8 word"

record RGBA =
  R :: uint8
  G :: uint8
  B :: uint8
  A :: uint8

definition RGBA_zero :: RGBA where
  "RGBA_zero = \<lparr>R = 0, G = 0, B = 0, A = 0\<rparr>"

text \<open>
  \<^verbatim>\<open>func uint8Diff(a uint8, b uint8) uint8\<close> (main.go, line 212). The subtraction is
  the machine subtraction of \<^verbatim>\<open>uint8\<close>, which wraps.
\<close>

definition uint8Diff :: "uint8 \<Rightarrow> uint8 \<Rightarrow> uint8" where
  "uint8Diff a b = (if a > b then a - b else b - a)"

definition colorTolerance :: uint8 where
  "colorTolerance = 110"

definition colorToleranceUniform :: uint8 where
  "colorToleranceUniform = 100"

text \<open>\<^verbatim>\<open>func sameColor(a *color.RGBA, b *color.RGBA) bool\<close> (main.go, line 222).\<close>

definition sameColor :: "RGBA \<Rightarrow> RGBA \<Rightarrow> bool" where
  "sameColor aa bb =
     (let dR = uint8Diff (R aa) (R bb);
          dG = uint8Diff (G aa) (G bb);
          dB = uint8Diff (B aa) (B bb);
          t = (if dR = dG \<and> dG = dB then colorToleranceUniform else colorTolerance)
      in dR \<le> t \<and> dG \<le> t \<and> dB \<le> t)"

text \<open>
  The absolute difference of two channel values, as the specification words it: on the
  integers, with no wrap-around.
\<close>

definition channel_delta :: "uint8 \<Rightarrow> uint8 \<Rightarrow> int" where
  "channel_delta a b = \<bar>uint a - uint b\<bar>"

section \<open>Images\<close>

text \<open>
  \<^verbatim>\<open>image.Point\<close> and \<^verbatim>\<open>image.Rectangle\<close> of the Go standard library, with the
  methods the program reaches. A rectangle holds the points with
  \<^verbatim>\<open>Min.X <= x < Max.X\<close> and \<^verbatim>\<open>Min.Y <= y < Max.Y\<close>. \<^verbatim>\<open>image.ZP\<close> is the zero point
  and \<^verbatim>\<open>image.ZR\<close> the zero rectangle.
\<close>

record Point =
  X :: int
  Y :: int

record Rectangle =
  rMin :: Point
  rMax :: Point

definition ZP :: Point where
  "ZP = \<lparr>X = 0, Y = 0\<rparr>"

definition ZR :: Rectangle where
  "ZR = \<lparr>rMin = ZP, rMax = ZP\<rparr>"

definition Pt :: "int \<Rightarrow> int \<Rightarrow> Point" where
  "Pt x y = \<lparr>X = x, Y = y\<rparr>"

definition Add_pt :: "Point \<Rightarrow> Point \<Rightarrow> Point" where
  "Add_pt p q = \<lparr>X = X p + X q, Y = Y p + Y q\<rparr>"

definition Sub_pt :: "Point \<Rightarrow> Point \<Rightarrow> Point" where
  "Sub_pt p q = \<lparr>X = X p - X q, Y = Y p - Y q\<rparr>"

definition Dx :: "Rectangle \<Rightarrow> int" where
  "Dx r = X (rMax r) - X (rMin r)"

definition Dy :: "Rectangle \<Rightarrow> int" where
  "Dy r = Y (rMax r) - Y (rMin r)"

definition Empty :: "Rectangle \<Rightarrow> bool" where
  "Empty r \<longleftrightarrow> X (rMin r) \<ge> X (rMax r) \<or> Y (rMin r) \<ge> Y (rMax r)"

definition In :: "Point \<Rightarrow> Rectangle \<Rightarrow> bool" where
  "In p r \<longleftrightarrow>
     X (rMin r) \<le> X p \<and> X p < X (rMax r) \<and> Y (rMin r) \<le> Y p \<and> Y p < Y (rMax r)"

definition Add_rect :: "Rectangle \<Rightarrow> Point \<Rightarrow> Rectangle" where
  "Add_rect r p = \<lparr>rMin = Add_pt (rMin r) p, rMax = Add_pt (rMax r) p\<rparr>"

text \<open>\<^verbatim>\<open>Rectangle.Intersect\<close>: the largest rectangle inside both, or \<^verbatim>\<open>ZR\<close> when
  that is empty.\<close>

definition Intersect :: "Rectangle \<Rightarrow> Rectangle \<Rightarrow> Rectangle" where
  "Intersect r s =
     (let r1 = \<lparr>rMin = \<lparr>X = max (X (rMin r)) (X (rMin s)), Y = max (Y (rMin r)) (Y (rMin s))\<rparr>,
                rMax = \<lparr>X = min (X (rMax r)) (X (rMax s)), Y = min (Y (rMax r)) (Y (rMax s))\<rparr>\<rparr>
      in if Empty r1 then ZR else r1)"

text \<open>
  \<^verbatim>\<open>image.Image\<close> is an interface: a rectangle of bounds and a colour at each point.
  The program reads an image only through \<^verbatim>\<open>draw.Draw\<close> onto an \<^verbatim>\<open>*image.RGBA\<close>, which
  stores each source colour converted by \<^verbatim>\<open>color.RGBAModel\<close>; \<open>At\<close> is that converted
  colour, so the colour model of the decoded file is not part of the model. \<open>Bounds\<close>
  is a well-formed rectangle (\<^verbatim>\<open>Min <= Max\<close> in both coordinates), as the interface
  asks of every implementation.
\<close>

record Image =
  Bounds :: Rectangle
  At :: "int \<Rightarrow> int \<Rightarrow> RGBA"

text \<open>
  \<^verbatim>\<open>image.RGBA\<close>: its rectangle and its pixels. The library keeps the pixels in a byte
  slice addressed through \<^verbatim>\<open>PixOffset\<close>; the model keeps one colour per point and
  gives the three accessors their documented behaviour: \<^verbatim>\<open>RGBAAt\<close> outside the
  rectangle is \<^verbatim>\<open>color.RGBA{}\<close>, \<^verbatim>\<open>SetRGBA\<close> outside the rectangle does nothing, and
  \<^verbatim>\<open>Opaque\<close> scans the rectangle (an empty one is opaque).
\<close>

record RGBA_Image =
  Rect :: Rectangle
  Pix :: "int \<times> int \<Rightarrow> RGBA"

definition NewRGBA :: "Rectangle \<Rightarrow> RGBA_Image" where
  "NewRGBA r = \<lparr>Rect = r, Pix = (\<lambda>_. RGBA_zero)\<rparr>"

definition RGBAAt :: "RGBA_Image \<Rightarrow> int \<Rightarrow> int \<Rightarrow> RGBA" where
  "RGBAAt p x y = (if \<not> In (Pt x y) (Rect p) then RGBA_zero else Pix p (x, y))"

definition SetRGBA :: "RGBA_Image \<Rightarrow> int \<Rightarrow> int \<Rightarrow> RGBA \<Rightarrow> RGBA_Image" where
  "SetRGBA p x y c = (if \<not> In (Pt x y) (Rect p) then p else p\<lparr>Pix := (Pix p)((x, y) := c)\<rparr>)"

definition Opaque :: "RGBA_Image \<Rightarrow> bool" where
  "Opaque p \<longleftrightarrow>
     (if Empty (Rect p) then True
      else list_all (\<lambda>y. list_all (\<lambda>x. A (Pix p (x, y)) = 0xff)
                      [X (rMin (Rect p)) .. X (rMax (Rect p)) - 1])
             [Y (rMin (Rect p)) .. Y (rMax (Rect p)) - 1])"

text \<open>
  \<^verbatim>\<open>draw.Draw(dst, r, src, sp, draw.Src)\<close> with an \<^verbatim>\<open>*image.RGBA\<close> destination. The
  library first clips: \<^verbatim>\<open>r\<close> is intersected with the destination's bounds and with the
  source's bounds translated by \<^verbatim>\<open>r.Min - sp\<close>, and \<^verbatim>\<open>sp\<close> moves with the corner of
  \<^verbatim>\<open>r\<close>. Then every point of the clipped rectangle receives the source colour at the
  matching source point; every other pixel of the destination is left as it was.
\<close>

definition Draw :: "RGBA_Image \<Rightarrow> Rectangle \<Rightarrow> Image \<Rightarrow> Point \<Rightarrow> RGBA_Image" where
  "Draw dst r src sp =
     (let orig = rMin r;
          r1 = Intersect r (Rect dst);
          r2 = Intersect r1 (Add_rect (Bounds src) (Sub_pt orig sp));
          sp2 = Add_pt sp (Sub_pt (rMin r2) orig)
      in dst\<lparr>Pix := (\<lambda>(x, y).
           if In (Pt x y) r2
           then At src (X sp2 + (x - X (rMin r2))) (Y sp2 + (y - Y (rMin r2)))
           else Pix dst (x, y))\<rparr>)"

text \<open>An \<^verbatim>\<open>*image.RGBA\<close> handed on as an \<^verbatim>\<open>image.Image\<close>: \<^verbatim>\<open>Bounds()\<close> is its
  rectangle and \<^verbatim>\<open>At\<close> is \<^verbatim>\<open>RGBAAt\<close>.\<close>

definition as_Image :: "RGBA_Image \<Rightarrow> Image" where
  "as_Image p = \<lparr>Bounds = Rect p, At = RGBAAt p\<rparr>"

section \<open>The transparency transform\<close>

text \<open>Lines 239 and 240 of \<^verbatim>\<open>makeBackgroundTransparent\<close>: a fresh RGBA image of the
  source's bounds, and the source drawn onto it from source point \<^verbatim>\<open>image.ZP\<close>.\<close>

definition convertRGBA :: "Image \<Rightarrow> RGBA_Image" where
  "convertRGBA imageData =
     (let imageRGBA = NewRGBA (Bounds imageData)
      in Draw imageRGBA (Bounds imageData) imageData ZP)"

text \<open>The body of the inner loop (lines 248 to 252).\<close>

definition pixel_step :: "int \<Rightarrow> int \<Rightarrow> RGBA \<Rightarrow> RGBA_Image \<Rightarrow> RGBA_Image" where
  "pixel_step x y backgroundColor imageRGBA =
     (let color = RGBAAt imageRGBA x y
      in if sameColor color backgroundColor
         then SetRGBA imageRGBA x y (color\<lparr>A := 0\<rparr>)
         else imageRGBA)"

text \<open>\<^verbatim>\<open>for y := 0; y < height; y++\<close>, entered at \<open>y\<close>.\<close>

function loop_y :: "int \<Rightarrow> int \<Rightarrow> int \<Rightarrow> RGBA \<Rightarrow> RGBA_Image \<Rightarrow> RGBA_Image" where
  "loop_y x y height backgroundColor imageRGBA =
     (if y < height
      then loop_y x (y + 1) height backgroundColor (pixel_step x y backgroundColor imageRGBA)
      else imageRGBA)"
  by pat_completeness auto
termination
  by (relation "measure (\<lambda>(x, y, height, bg, img). nat (height - y))") auto

text \<open>\<^verbatim>\<open>for x := 0; x < width; x++\<close>, entered at \<open>x\<close>.\<close>

function loop_x :: "int \<Rightarrow> int \<Rightarrow> int \<Rightarrow> RGBA \<Rightarrow> RGBA_Image \<Rightarrow> RGBA_Image" where
  "loop_x x width height backgroundColor imageRGBA =
     (if x < width
      then loop_x (x + 1) width height backgroundColor
             (loop_y x 0 height backgroundColor imageRGBA)
      else imageRGBA)"
  by pat_completeness auto
termination
  by (relation "measure (\<lambda>(x, width, height, bg, img). nat (width - x))") auto

text \<open>
  \<^verbatim>\<open>func makeBackgroundTransparent(img *image.Image) (bool, *image.RGBA)\<close> (line 237).
  The second component is \<open>None\<close> where the source returns \<^verbatim>\<open>nil\<close>.
\<close>

definition makeBackgroundTransparent :: "Image \<Rightarrow> bool \<times> RGBA_Image option" where
  "makeBackgroundTransparent imageData =
     (let imageRGBA = convertRGBA imageData
      in if Opaque imageRGBA
         then (let backgroundColor = RGBAAt imageRGBA 0 0;
                   bounds = Rect imageRGBA;
                   width = Dx bounds;
                   height = Dy bounds
               in (True, Some (loop_x 0 width height backgroundColor imageRGBA)))
         else (False, None))"

text \<open>What one visit of the loop body leaves at a pixel that held \<open>c\<close>.\<close>

definition cleared :: "RGBA \<Rightarrow> RGBA \<Rightarrow> RGBA" where
  "cleared backgroundColor c = (if sameColor c backgroundColor then c\<lparr>A := 0\<rparr> else c)"

text \<open>
  A colour is far from another when some channel differs by more than the general
  tolerance of 110.
\<close>

definition far_from :: "RGBA \<Rightarrow> RGBA \<Rightarrow> bool" where
  "far_from c bg \<longleftrightarrow>
     channel_delta (R c) (R bg) > 110 \<or> channel_delta (G c) (G bg) > 110 \<or>
     channel_delta (B c) (B bg) > 110"

text \<open>
  The condition of the specification for an image that is already transparent: some
  pixel within the bounds of the image is not opaque.
\<close>

definition has_non_opaque_pixel :: "Image \<Rightarrow> bool" where
  "has_non_opaque_pixel img \<longleftrightarrow>
     list_ex (\<lambda>y. list_ex (\<lambda>x. A (At img x y) \<noteq> 0xff)
                     [X (rMin (Bounds img)) .. X (rMax (Bounds img)) - 1])
             [Y (rMin (Bounds img)) .. Y (rMax (Bounds img)) - 1]"

section \<open>Format tags and format resolution\<close>

text \<open>The seven values of \<^verbatim>\<open>ImageTypes\<close> (main.go, line 37).\<close>

datatype ImageType = JPEG | PNG | BMP | TIFF | GIF | WEBP | UNSUPPORTED

text \<open>
  \<^verbatim>\<open>strings.ToLower\<close>. A Go string is a sequence of bytes. Where every byte is below
  \<^verbatim>\<open>utf8.RuneSelf\<close> (0x80) the letters \<^verbatim>\<open>A\<close> to \<^verbatim>\<open>Z\<close> become \<^verbatim>\<open>a\<close> to \<^verbatim>\<open>z\<close> and
  nothing else changes. Any other string goes through
  \<^verbatim>\<open>strings.Map(unicode.ToLower, s)\<close>, which lower-cases by the Unicode tables (so
  U+0130 becomes \<^verbatim>\<open>i\<close>); the tables are not part of the program, and that function is
  a parameter of the model, written \<open>cm\<close>.
\<close>

type_synonym case_mapping = "string \<Rightarrow> string"

definition lower_byte :: "char \<Rightarrow> char" where
  "lower_byte c =
     (case map_of (zip ''ABCDEFGHIJKLMNOPQRSTUVWXYZ'' ''abcdefghijklmnopqrstuvwxyz'') c of
        None \<Rightarrow> c
      | Some l \<Rightarrow> l)"

definition isASCII :: "string \<Rightarrow> bool" where
  "isASCII s \<longleftrightarrow> list_all (\<lambda>c. (of_char c :: nat) < 128) s"

definition ToLower :: "case_mapping \<Rightarrow> string \<Rightarrow> string" where
  "ToLower cm s = (if isASCII s then map lower_byte s else cm s)"

text \<open>\<^verbatim>\<open>func getImageType(fileExt string) ImageType\<close> (line 55); \<^verbatim>\<open>case "jpg"\<close> falls
  through to \<^verbatim>\<open>case "jpeg"\<close>.\<close>

definition getImageType :: "case_mapping \<Rightarrow> string \<Rightarrow> ImageType" where
  "getImageType cm fileExt =
     (let s = ToLower cm fileExt
      in if s = ''jpg'' then JPEG
         else if s = ''jpeg'' then JPEG
         else if s = ''png'' then PNG
         else if s = ''bmp'' then BMP
         else if s = ''tiff'' then TIFF
         else if s = ''gif'' then GIF
         else if s = ''webp'' then WEBP
         else UNSUPPORTED)"



section \<open>Bytes, searching and base64\<close>

text \<open>A Go \<^verbatim>\<open>[]byte\<close> is a list of 8-bit words; \<^verbatim>\<open>[]byte(s)\<close> converts a string.\<close>

definition bytes :: "string \<Rightarrow> uint8 list" where
  "bytes s = map of_char s"

text \<open>\<^verbatim>\<open>bytes.Index(s, sep)\<close>: the index of the first instance of \<^verbatim>\<open>sep\<close> in \<^verbatim>\<open>s\<close>, or
  \<^verbatim>\<open>-1\<close> when there is none. \<open>Index_from i\<close> searches a tail that starts at index \<open>i\<close>.\<close>

fun Index_from :: "int \<Rightarrow> uint8 list \<Rightarrow> uint8 list \<Rightarrow> int" where
  "Index_from i [] sep = (if sep = [] then i else - 1)"
| "Index_from i (c # s) sep = (if prefix sep (c # s) then i else Index_from (i + 1) s sep)"

definition Index :: "uint8 list \<Rightarrow> uint8 list \<Rightarrow> int" where
  "Index s sep = Index_from 0 s sep"

text \<open>The alphabet of \<^verbatim>\<open>base64.StdEncoding\<close>; its padding character is \<^verbatim>\<open>=\<close>.\<close>

definition encodeStd :: string where
  "encodeStd = ''ABCDEFGHIJKLMNOPQRSTUVWXYZabcdefghijklmnopqrstuvwxyz0123456789+/''"

text \<open>\<^verbatim>\<open>Encoding.EncodeToString\<close>: three bytes become four characters, and a last group
  of one or two bytes is padded.\<close>

definition enc6 :: "nat \<Rightarrow> char" where
  "enc6 v = encodeStd ! (v mod 64)"

fun EncodeToString :: "uint8 list \<Rightarrow> string" where
  "EncodeToString [] = []"
| "EncodeToString [a] =
     (let val = unat a * 65536
      in [enc6 (val div 262144), enc6 (val div 4096), CHR ''='', CHR ''=''])"
| "EncodeToString [a, b] =
     (let val = unat a * 65536 + unat b * 256
      in [enc6 (val div 262144), enc6 (val div 4096), enc6 (val div 64), CHR ''=''])"
| "EncodeToString (a # b # c # rest) =
     (let val = unat a * 65536 + unat b * 256 + unat c
      in [enc6 (val div 262144), enc6 (val div 4096), enc6 (val div 64), enc6 val]
         @ EncodeToString rest)"

text \<open>The decode map of the encoding: the position of a byte in the alphabet, if it has
  one.\<close>

fun index_of :: "'a \<Rightarrow> 'a list \<Rightarrow> nat option" where
  "index_of c [] = None"
| "index_of c (e # es) = (if e = c then Some 0 else map_option Suc (index_of c es))"

definition decodeMap :: "uint8 \<Rightarrow> nat option" where
  "decodeMap c = index_of c (bytes encodeStd)"

text \<open>The bytes of one quantum: \<open>dbuf\<close> holds the 6-bit values read (two, three or
  four of them), and one byte less comes out.\<close>

definition quantum_bytes :: "nat list \<Rightarrow> uint8 list" where
  "quantum_bytes dbuf =
     (let d = dbuf @ replicate (4 - length dbuf) 0;
          val = d ! 0 * 262144 + d ! 1 * 4096 + d ! 2 * 64 + d ! 3
      in take (length dbuf - 1) [of_nat (val div 65536), of_nat (val div 256), of_nat val])"

definition is_newline :: "uint8 \<Rightarrow> bool" where
  "is_newline c \<longleftrightarrow> c = 10 \<or> c = 13"

text \<open>
  Standard base64 decoding for \<^verbatim>\<open>StdEncoding\<close> (padded, not strict), as the decoded
  bytes (what \<^verbatim>\<open>DecodeString\<close> returns): \<open>None\<close> is a \<^verbatim>\<open>CorruptInputError\<close>. Line feeds and carriage returns are skipped;
  a quantum is four alphabet characters, or two or three followed by padding to four, and
  only line breaks may follow the padding. \<open>dbuf\<close> holds the values of the quantum being
  read.
\<close>

fun Decode_from :: "nat list \<Rightarrow> uint8 list \<Rightarrow> uint8 list option" where
  "Decode_from dbuf [] = (if dbuf = [] then Some [] else None)"
| "Decode_from dbuf (c # src) =
     (case decodeMap c of
        Some v \<Rightarrow>
          (if length dbuf = 3
           then map_option (\<lambda>rest. quantum_bytes (dbuf @ [v]) @ rest) (Decode_from [] src)
           else Decode_from (dbuf @ [v]) src)
      | None \<Rightarrow>
          (if is_newline c then Decode_from dbuf src
           else if c \<noteq> 61 then None
           else if length dbuf = 2 then
             (case dropWhile is_newline src of
                [] \<Rightarrow> None
              | p # after \<Rightarrow>
                  if p \<noteq> 61 then None
                  else if dropWhile is_newline after = [] then Some (quantum_bytes dbuf)
                  else None)
           else if length dbuf = 3 then
             (if dropWhile is_newline src = [] then Some (quantum_bytes dbuf) else None)
           else None))"

definition Decode :: "uint8 list \<Rightarrow> uint8 list option" where
  "Decode src = Decode_from [] src"

text \<open>
  \<^verbatim>\<open>Encoding.Decode(dst, src)\<close> as it runs on memory. The program calls it with
  \<^verbatim>\<open>dst = data\<close> and \<^verbatim>\<open>src = data[idx+7:]\<close>, two slices of one array, so the model keeps
  one byte list \<open>mem\<close> for the array: \<^verbatim>\<open>dst\<close> is all of it and \<^verbatim>\<open>src\<close> is what starts at
  offset \<open>so\<close>; \<open>si\<close> and \<open>n\<close> are the read and write positions of the library code.
  A run ends with a \<^verbatim>\<open>CorruptInputError\<close>, with a run-time panic on an index or slice
  bound out of range, or with the memory as written and the count \<^verbatim>\<open>n\<close>.
\<close>

datatype decode_failure = CorruptInputError | RangePanic

text \<open>Storing the bytes \<open>bs\<close> at \<^verbatim>\<open>dst[n:]\<close>, as \<^verbatim>\<open>binary.BigEndian.PutUint64\<close> and the
  assignments \<^verbatim>\<open>dst[2]\<close>, \<^verbatim>\<open>dst[1]\<close>, \<^verbatim>\<open>dst[0]\<close> of \<^verbatim>\<open>decodeQuantum\<close> do.\<close>

definition put_bytes :: "nat \<Rightarrow> uint8 list \<Rightarrow> uint8 list \<Rightarrow> uint8 list" where
  "put_bytes n bs mem = take n mem @ bs @ drop (n + length bs) mem"

text \<open>The loop of \<^verbatim>\<open>decodeQuantum\<close> that skips line feeds and carriage returns from \<open>si\<close> on.\<close>

definition skip_newlines :: "uint8 list \<Rightarrow> nat \<Rightarrow> nat" where
  "skip_newlines src si = si + length (takeWhile is_newline (drop si src))"

text \<open>
  The \<^verbatim>\<open>for j\<close> loop of \<^verbatim>\<open>decodeQuantum\<close>, for a padded encoding that is not strict.
  \<open>dbuf\<close> holds the \<open>j\<close> values read so far. The result is \<open>None\<close> where the loop
  returns a \<^verbatim>\<open>CorruptInputError\<close> at once, and otherwise the new read position, the
  values read (\<^verbatim>\<open>dlen\<close> is their number; none at all when the source ended before the
  quantum began) and whether bytes follow the padding, which the code reports as an error
  after it has stored the quantum. The code tests \<^verbatim>\<open>len(src) == si\<close>; \<open>si\<close> never passes
  the length.
\<close>

function quantum_loop :: "uint8 list \<Rightarrow> nat \<Rightarrow> nat list \<Rightarrow> (nat \<times> nat list \<times> bool) option" where
  "quantum_loop src si dbuf =
     (if length dbuf = 4 then Some (si, dbuf, False)
      else if length src \<le> si then (if dbuf = [] then Some (si, [], False) else None)
      else
        (let c = src ! si; si1 = si + 1
         in case decodeMap c of
              Some out \<Rightarrow> quantum_loop src si1 (dbuf @ [out])
            | None \<Rightarrow>
                if is_newline c then quantum_loop src si1 dbuf
                else if c \<noteq> 61 then None
                else if length dbuf < 2 then None
                else if length dbuf = 2 then
                  (let si2 = skip_newlines src si1
                   in if si2 = length src then None
                      else if src ! si2 \<noteq> 61 then None
                      else (let si3 = skip_newlines src (si2 + 1)
                            in Some (si3, dbuf, si3 < length src)))
                else (let si3 = skip_newlines src si1
                      in Some (si3, dbuf, si3 < length src))))"
  by pat_completeness auto
termination by (relation "measure (\<lambda>(src, si, dbuf). length src - si)") auto

declare quantum_loop.simps [simp del]

text \<open>
  The call \<^verbatim>\<open>enc.decodeQuantum(dst[n:], src, si)\<close>: the slice expression \<^verbatim>\<open>dst[n:]\<close>, the
  scan, and the stores, of which the one at the highest index comes first. The result is
  the memory, the new \<^verbatim>\<open>si\<close> and the number of bytes stored.
\<close>

definition decodeQuantum ::
  "uint8 list \<Rightarrow> nat \<Rightarrow> nat \<Rightarrow> nat \<Rightarrow> decode_failure + uint8 list \<times> nat \<times> nat" where
  "decodeQuantum mem so si n =
     (if length mem < n then Inl RangePanic
      else case quantum_loop (drop so mem) si [] of
             None \<Rightarrow> Inl CorruptInputError
           | Some (nsi, dbuf, trailing) \<Rightarrow>
               if dbuf = [] then Inr (mem, nsi, 0)
               else if length mem < n + (length dbuf - 1) then Inl RangePanic
               else if trailing then Inl CorruptInputError
               else Inr (put_bytes n (quantum_bytes dbuf) mem, nsi, length dbuf - 1))"

text \<open>
  The fast paths. \<^verbatim>\<open>assemble64\<close> takes the values of eight characters, refuses when one
  of them is not in the alphabet, and otherwise packs the eight 6-bit values into the top
  48 bits of a \<^verbatim>\<open>uint64\<close>, which \<^verbatim>\<open>PutUint64\<close> stores in eight bytes: the six decoded
  bytes and two zero bytes. \<^verbatim>\<open>assemble32\<close> does the same with four characters, three
  decoded bytes and one zero byte.
\<close>

definition assemble64 :: "uint8 list \<Rightarrow> uint8 list option" where
  "assemble64 src2 =
     (case those (map decodeMap src2) of
        None \<Rightarrow> None
      | Some ns \<Rightarrow> Some (quantum_bytes (take 4 ns) @ quantum_bytes (drop 4 ns) @ [0, 0]))"

definition assemble32 :: "uint8 list \<Rightarrow> uint8 list option" where
  "assemble32 src2 =
     (case those (map decodeMap src2) of
        None \<Rightarrow> None
      | Some ns \<Rightarrow> Some (quantum_bytes ns @ [0]))"

text \<open>
  The three loops of \<^verbatim>\<open>Decode\<close>, each with the loop that follows it: eight characters
  at a time while eight source bytes and eight destination bytes are left (on a platform
  with 64-bit integers), then four at a time, then quantum by quantum to the end of the
  source.
\<close>

function loop64 ::
    "uint8 list \<Rightarrow> nat \<Rightarrow> nat \<Rightarrow> nat \<Rightarrow> decode_failure + uint8 list \<times> nat"
  and loop32 ::
    "uint8 list \<Rightarrow> nat \<Rightarrow> nat \<Rightarrow> nat \<Rightarrow> decode_failure + uint8 list \<times> nat"
  and loop_rest ::
    "uint8 list \<Rightarrow> nat \<Rightarrow> nat \<Rightarrow> nat \<Rightarrow> decode_failure + uint8 list \<times> nat" where
  "loop64 mem so si n =
     (if 8 \<le> length mem - so - si \<and> 8 \<le> length mem - n
      then (case assemble64 (take 8 (drop si (drop so mem))) of
              Some dn \<Rightarrow> loop64 (put_bytes n dn mem) so (si + 8) (n + 6)
            | None \<Rightarrow>
                (case decodeQuantum mem so si n of
                   Inl err \<Rightarrow> Inl err
                 | Inr (mem', nsi, ninc) \<Rightarrow> loop64 mem' so nsi (n + ninc)))
      else loop32 mem so si n)"
| "loop32 mem so si n =
     (if 4 \<le> length mem - so - si \<and> 4 \<le> length mem - n
      then (case assemble32 (take 4 (drop si (drop so mem))) of
              Some dn \<Rightarrow> loop32 (put_bytes n dn mem) so (si + 4) (n + 3)
            | None \<Rightarrow>
                (case decodeQuantum mem so si n of
                   Inl err \<Rightarrow> Inl err
                 | Inr (mem', nsi, ninc) \<Rightarrow> loop32 mem' so nsi (n + ninc)))
      else loop_rest mem so si n)"
| "loop_rest mem so si n =
     (if si < length mem - so
      then (case decodeQuantum mem so si n of
              Inl err \<Rightarrow> Inl err
            | Inr (mem', nsi, ninc) \<Rightarrow> loop_rest mem' so nsi (n + ninc))
      else Inr (mem, n))"
  by pat_completeness auto
termination
proof -
  have sk: "si \<le> length src \<Longrightarrow> si \<le> skip_newlines src si \<and> skip_newlines src si \<le> length src"
    for src si
  proof -
    assume "si \<le> length src"
    moreover have "length (takeWhile is_newline (drop si src)) \<le> length (drop si src)"
      by (rule length_takeWhile_le)
    ultimately show ?thesis by (simp add: skip_newlines_def)
  qed
  have ql: "quantum_loop src si dbuf = Some r \<Longrightarrow> si < length src \<Longrightarrow> length dbuf < 4 \<Longrightarrow>
      si < fst r \<and> fst r \<le> length src \<and> length (fst (snd r)) \<le> 4" for src si dbuf r
  proof (induction src si dbuf rule: quantum_loop.induct)
    case (1 src si dbuf)
    from "1.prems" have f: "length dbuf \<noteq> 4" "\<not> length src \<le> si" by simp_all
    show ?case
    proof (cases "decodeMap (src ! si)")
      case (Some out)
      with f "1.prems" have q: "quantum_loop src (si + 1) (dbuf @ [out]) = Some r"
        by (subst (asm) quantum_loop.simps) (simp add: Let_def)
      show ?thesis
      proof (cases "si + 1 < length src \<and> length (dbuf @ [out]) < 4")
        case True
        with "1.IH"(2) [OF f refl refl Some q] show ?thesis by simp
      next
        case False
        with q f "1.prems" show ?thesis
          by (subst (asm) quantum_loop.simps) (auto split: if_splits)
      qed
    next
      case None
      show ?thesis
      proof (cases "is_newline (src ! si)")
        case True
        with f None "1.prems" have q: "quantum_loop src (si + 1) dbuf = Some r"
          by (subst (asm) quantum_loop.simps) (simp add: Let_def)
        show ?thesis
        proof (cases "si + 1 < length src")
          case True
          with "1.IH"(1) [OF f refl refl None \<open>is_newline (src ! si)\<close> q] "1.prems"
          show ?thesis by simp
        next
          case False
          with q f "1.prems" show ?thesis
            by (subst (asm) quantum_loop.simps) (auto split: if_splits)
        qed
      next
        case False
        have b: "si + 1 \<le> skip_newlines src (si + 1) \<and> skip_newlines src (si + 1) \<le> length src"
          using f sk [of "si + 1" src] by simp
        have c: "si2 < length src \<Longrightarrow> si2 + 1 \<le> skip_newlines src (si2 + 1) \<and>
            skip_newlines src (si2 + 1) \<le> length src" for si2
          using sk [of "si2 + 1" src] by simp
        from False f None "1.prems" show ?thesis
          apply (subst (asm) quantum_loop.simps)
          apply (simp add: Let_def split: if_splits)
          using b c [of "skip_newlines src (Suc si)"] apply auto
          done
      qed
    qed
  qed
  have dq: "length mem' = length mem \<and> si < nsi \<and> nsi \<le> length mem - so"
    if "decodeQuantum mem so si n = Inr (mem', nsi, ninc)" "si < length mem - so"
    for mem so si n mem' nsi ninc
  proof -
    from that(1) obtain dbuf t where q: "quantum_loop (drop so mem) si [] = Some (nsi, dbuf, t)"
      and m: "mem' = mem \<or> (mem' = put_bytes n (quantum_bytes dbuf) mem
                \<and> n + (length dbuf - 1) \<le> length mem)"
      by (auto simp add: decodeQuantum_def split: option.splits if_splits)
    from ql [OF q] that(2) have a: "si < nsi" "nsi \<le> length mem - so" "length dbuf \<le> 4"
      by simp_all
    then have "length (quantum_bytes dbuf) = length dbuf - 1"
      by (simp add: quantum_bytes_def Let_def)
    with m have "length mem' = length mem" by (auto simp add: put_bytes_def)
    with a show ?thesis by simp
  qed
  have th: "those xs = Some ys \<Longrightarrow> length ys = length xs" for xs :: "nat option list" and ys
  proof (induction xs arbitrary: ys)
    case Nil
    then show ?case by simp
  next
    case (Cons x xs)
    then show ?case by (auto split: option.splits)
  qed
  have a64: "length dn = 8"
    if "assemble64 (take 8 (drop si src)) = Some dn" "8 \<le> length src - si" for si src dn
    using that by (auto simp add: assemble64_def quantum_bytes_def Let_def split: option.splits dest!: th)
  have a32: "length dn = 4"
    if "assemble32 (take 4 (drop si src)) = Some dn" "4 \<le> length src - si" for si src dn
    using that by (auto simp add: assemble32_def quantum_bytes_def Let_def split: option.splits dest!: th)
  show ?thesis
  proof (relation "measure (\<lambda>x. case x of
           Inl (mem, so, si, n) \<Rightarrow> 3 * (length mem - so - si) + 2
         | Inr (Inl (mem, so, si, n)) \<Rightarrow> 3 * (length mem - so - si) + 1
         | Inr (Inr (mem, so, si, n)) \<Rightarrow> 3 * (length mem - so - si))", goal_cases)
    case 1
    show ?case by simp
  next
    case (2 mem so si n b x y xa ya)
    then have d: "decodeQuantum mem so si n = Inr (x, xa, ya)" "si < length mem - so" by auto
    from dq [OF d] have e: "length x = length mem" "si < xa" "xa \<le> length mem - so"
      by simp_all
    then have "length x - so - xa < length mem - so - si" by linarith
    then show ?case by simp
  next
    case (3 mem so si n dn)
    then have "length dn = 8" using a64 [of si "drop so mem" dn] by simp
    with 3 have "length (put_bytes n dn mem) = length mem"
      unfolding put_bytes_def by (simp add: min_def) linarith
    moreover from 3 have "8 \<le> length mem - so - si" by simp
    ultimately have "length (put_bytes n dn mem) - so - (si + 8) < length mem - so - si"
      by linarith
    then show ?case by simp
  next
    case 4
    show ?case by simp
  next
    case (5 mem so si n b x y xa ya)
    then have d: "decodeQuantum mem so si n = Inr (x, xa, ya)" "si < length mem - so" by auto
    from dq [OF d] have e: "length x = length mem" "si < xa" "xa \<le> length mem - so"
      by simp_all
    then have "length x - so - xa < length mem - so - si" by linarith
    then show ?case by simp
  next
    case (6 mem so si n dn)
    then have "length dn = 4" using a32 [of si "drop so mem" dn] by simp
    with 6 have "length (put_bytes n dn mem) = length mem"
      unfolding put_bytes_def by (simp add: min_def) linarith
    moreover from 6 have "4 \<le> length mem - so - si" by simp
    ultimately have "length (put_bytes n dn mem) - so - (si + 4) < length mem - so - si"
      by linarith
    then show ?case by simp
  next
    case 7
    show ?case by simp
  next
    case (8 mem so si n b x y xa ya)
    then have d: "decodeQuantum mem so si n = Inr (x, xa, ya)" "si < length mem - so" by auto
    from dq [OF d] have e: "length x = length mem" "si < xa" "xa \<le> length mem - so"
      by simp_all
    then have "length x - so - xa < length mem - so - si" by linarith
    then show ?case by simp
  qed
qed

declare loop64.simps [simp del] loop32.simps [simp del] loop_rest.simps [simp del]

text \<open>\<^verbatim>\<open>Decode\<close> returns at once on an empty source.\<close>

definition Decode_buffer :: "uint8 list \<Rightarrow> nat \<Rightarrow> decode_failure + uint8 list \<times> nat" where
  "Decode_buffer mem so = (if length mem - so = 0 then Inr (mem, 0) else loop64 mem so 0 0)"

section \<open>Failures, the file system and the codecs\<close>

text \<open>
  Every \<^verbatim>\<open>logAndExit\<close> of the program ends the process with status \<^verbatim>\<open>-1\<close>; the value
  says which call it was, under the names of the specification's taxonomy (section 7).
  \<open>UsageError\<close> is a missing or malformed command-line argument. The last three are
  run-time panics of Go, not calls of \<^verbatim>\<open>logAndExit\<close>.
\<close>

datatype fs_operation = OpOpen | OpRemove | OpCreate

datatype error =
    UsageError
  | FileSystemError fs_operation
  | UnsupportedFormatError
  | DecodeError
  | UnsupportedEncodeFormatError
  | EncodeError
  | Base64DecodeError
  | AlreadyTransparentError
  | SliceBoundsPanic
  | NilDereferencePanic
  | IndexRangePanic

text \<open>The decode functions of the codec packages that the program calls.\<close>

datatype decoder = jpeg_Decode | image_Decode | bmp_Decode | tiff_Decode | gif_Decode | webp_Decode

text \<open>
  The codec packages are outside the program: they are parameters of the model.
  \<open>decode_with\<close> is a decode function on a byte stream and \<open>encode_with\<close> the encode
  function of a format, each \<open>None\<close> where the library returns an error.
\<close>

record codecs =
  decode_with :: "decoder \<Rightarrow> uint8 list \<Rightarrow> Image option"
  encode_with :: "ImageType \<Rightarrow> Image \<Rightarrow> uint8 list option"

text \<open>The calls the program makes on the operating system and the codecs, in order.\<close>

datatype event =
    EvOpen string
  | EvDecode decoder
  | EvStat string
  | EvRemove string
  | EvCreate string
  | EvEncode ImageType

text \<open>
  What \<^verbatim>\<open>os.Stat\<close> reports at a path: something is there, nothing is there (an error
  for which \<^verbatim>\<open>os.IsNotExist\<close> holds), or another error, such as a path that runs through
  a regular file.
\<close>

datatype stat_result = StatFound | StatNotExist | StatOtherError

text \<open>
  The outside world: the files that can be opened, by path, with their contents; what
  \<^verbatim>\<open>os.Stat\<close> reports at a path that holds no such file; whether \<^verbatim>\<open>os.Remove\<close> and
  \<^verbatim>\<open>os.Create\<close> succeed at a path; and the calls made so far.
\<close>

record world =
  files :: "string \<Rightarrow> uint8 list option"
  stat_other :: "string \<Rightarrow> stat_result"
  can_remove :: "string \<Rightarrow> bool"
  can_create :: "string \<Rightarrow> bool"
  trace :: "event list"

definition Stat :: "world \<Rightarrow> string \<Rightarrow> stat_result" where
  "Stat w filePath = (if files w filePath \<noteq> None then StatFound else stat_other w filePath)"

definition record_call :: "event \<Rightarrow> world \<Rightarrow> world" where
  "record_call e w = w\<lparr>trace := trace w @ [e]\<rparr>"

section \<open>Loading and the base64 round trip\<close>

text \<open>A call of a decode function of the codec packages on a byte stream.\<close>

definition run_decoder ::
  "codecs \<Rightarrow> decoder \<Rightarrow> uint8 list \<Rightarrow> world \<Rightarrow> (error + Image) \<times> world" where
  "run_decoder cd d content w =
     (case decode_with cd d content of
        None \<Rightarrow> (Inl DecodeError, record_call (EvDecode d) w)
      | Some imageData \<Rightarrow> (Inr imageData, record_call (EvDecode d) w))"

text \<open>\<^verbatim>\<open>func loadImage(fileName string, imageType ImageType) *image.Image\<close> (line 91):
  the file is opened first, then the format tag selects the decoder.\<close>

definition loadImage ::
  "codecs \<Rightarrow> string \<Rightarrow> ImageType \<Rightarrow> world \<Rightarrow> (error + Image) \<times> world" where
  "loadImage cd fileName imageType w =
     (let w1 = record_call (EvOpen fileName) w
      in case files w fileName of
           None \<Rightarrow> (Inl (FileSystemError OpOpen), w1)
         | Some content \<Rightarrow>
             (case imageType of
                JPEG \<Rightarrow> run_decoder cd jpeg_Decode content w1
              | PNG \<Rightarrow> run_decoder cd image_Decode content w1
              | BMP \<Rightarrow> run_decoder cd bmp_Decode content w1
              | TIFF \<Rightarrow> run_decoder cd tiff_Decode content w1
              | GIF \<Rightarrow> run_decoder cd gif_Decode content w1
              | WEBP \<Rightarrow> run_decoder cd webp_Decode content w1
              | UNSUPPORTED \<Rightarrow> (Inl UnsupportedFormatError, w1)))"

definition encode_as ::
  "codecs \<Rightarrow> ImageType \<Rightarrow> string \<Rightarrow> Image \<Rightarrow> world \<Rightarrow> (error + string) \<times> world" where
  "encode_as cd imageType imageTypeStr img w =
     (case encode_with cd imageType img of
        None \<Rightarrow> (Inl EncodeError, record_call (EvEncode imageType) w)
      | Some buff \<Rightarrow>
          (Inr (''data:image/'' @ imageTypeStr @ '';base64,'' @ EncodeToString buff),
           record_call (EvEncode imageType) w))"

text \<open>\<^verbatim>\<open>func encodeImageToBase64(img *image.Image, imageType ImageType) string\<close>
  (line 124).\<close>

definition encodeImageToBase64 ::
  "codecs \<Rightarrow> Image \<Rightarrow> ImageType \<Rightarrow> world \<Rightarrow> (error + string) \<times> world" where
  "encodeImageToBase64 cd img imageType w =
     (case imageType of
        JPEG \<Rightarrow> encode_as cd JPEG ''jpeg'' img w
      | PNG \<Rightarrow> encode_as cd PNG ''png'' img w
      | BMP \<Rightarrow> encode_as cd BMP ''bmp'' img w
      | TIFF \<Rightarrow> encode_as cd TIFF ''tiff'' img w
      | GIF \<Rightarrow> encode_as cd GIF ''gif'' img w
      | WEBP \<Rightarrow> (Inl UnsupportedEncodeFormatError, w)
      | UNSUPPORTED \<Rightarrow> (Inl UnsupportedEncodeFormatError, w))"

text \<open>The first \<^verbatim>\<open>switch\<close> of \<^verbatim>\<open>decodeImageFromBase64\<close> (lines 159 to 174).\<close>

definition sniff_type :: "uint8 list \<Rightarrow> ImageType" where
  "sniff_type data =
     (if Index data (bytes ''data:image/jpeg'') = 0 then JPEG
      else if Index data (bytes ''data:image/png'') = 0 then PNG
      else if Index data (bytes ''data:image/bmp'') = 0 then BMP
      else if Index data (bytes ''data:image/tiff'') = 0 then TIFF
      else if Index data (bytes ''data:image/gif'') = 0 then GIF
      else if Index data (bytes ''data:image/webp'') = 0 then WEBP
      else UNSUPPORTED)"

text \<open>
  Lines 176 to 182: the payload after the first \<^verbatim>\<open>base64,\<close> is decoded into \<^verbatim>\<open>data\<close>
  itself. \<^verbatim>\<open>Decode(data, src)\<close> writes the decoded bytes from the start of \<^verbatim>\<open>data\<close>
  and returns their number, which the program drops; the slice \<^verbatim>\<open>data\<close> keeps its
  length, and \<^verbatim>\<open>bytes.NewBuffer(data)\<close> is all of it. The result is the buffer that goes
  on to the image decoder.
\<close>

definition decode_in_place :: "uint8 list \<Rightarrow> error + uint8 list" where
  "decode_in_place data =
     (let search = bytes ''base64,'';
          idx = Index data search
      in if idx > - 1
         then (case Decode_buffer data (nat (idx + int (length search))) of
                 Inl CorruptInputError \<Rightarrow> Inl Base64DecodeError
               | Inl RangePanic \<Rightarrow> Inl IndexRangePanic
               | Inr (dataBuffer, n) \<Rightarrow> Inr dataBuffer)
         else Inr data)"

text \<open>\<^verbatim>\<open>func decodeImageFromBase64(data []byte) *image.Image\<close> (line 157). The
  format is read off the prefix before the payload is decoded; an unrecognised prefix
  goes to the auto-detecting \<^verbatim>\<open>image.Decode\<close>.\<close>

definition decodeImageFromBase64 ::
  "codecs \<Rightarrow> uint8 list \<Rightarrow> world \<Rightarrow> (error + Image) \<times> world" where
  "decodeImageFromBase64 cd data w =
     (let imageType = sniff_type data
      in case decode_in_place data of
           Inl e \<Rightarrow> (Inl e, w)
         | Inr dataBuffer \<Rightarrow>
             (case imageType of
                JPEG \<Rightarrow> run_decoder cd jpeg_Decode dataBuffer w
              | PNG \<Rightarrow> run_decoder cd image_Decode dataBuffer w
              | BMP \<Rightarrow> run_decoder cd bmp_Decode dataBuffer w
              | TIFF \<Rightarrow> run_decoder cd tiff_Decode dataBuffer w
              | GIF \<Rightarrow> run_decoder cd gif_Decode dataBuffer w
              | WEBP \<Rightarrow> run_decoder cd webp_Decode dataBuffer w
              | UNSUPPORTED \<Rightarrow> run_decoder cd image_Decode dataBuffer w))"

section \<open>The pipeline driver\<close>

text \<open>\<^verbatim>\<open>strconv.ParseBool\<close>.\<close>

definition ParseBool :: "string \<Rightarrow> bool option" where
  "ParseBool str =
     (if str \<in> set [''1'', ''t'', ''T'', ''TRUE'', ''true'', ''True''] then Some True
      else if str \<in> set [''0'', ''f'', ''F'', ''FALSE'', ''false'', ''False''] then Some False
      else None)"

text \<open>
  \<^verbatim>\<open>filepath.Ext\<close>: the suffix of the path from the last dot of its last element, or the
  empty string when that element has no dot. The scan runs from the end of the path and
  stops at a path separator (\<^verbatim>\<open>/\<close>, as on Unix). \<open>Ext_scan\<close> takes the part of the path
  still to scan, reversed, and the part already passed.
\<close>

fun Ext_scan :: "string \<Rightarrow> string \<Rightarrow> string" where
  "Ext_scan [] passed = []"
| "Ext_scan (c # before) passed =
     (if c = CHR ''/'' then []
      else if c = CHR ''.'' then c # passed
      else Ext_scan before (c # passed))"

definition Ext :: "string \<Rightarrow> string" where
  "Ext path = Ext_scan (rev path) []"

text \<open>\<^verbatim>\<open>func createFile(filePath string) *os.File\<close> (line 76): unless \<^verbatim>\<open>os.Stat\<close>
  reports that nothing is at the path, the path is removed; then the file is created
  empty.\<close>

definition createFile :: "string \<Rightarrow> world \<Rightarrow> (error + unit) \<times> world" where
  "createFile filePath w =
     (let w1 = record_call (EvStat filePath) w
      in case (if Stat w1 filePath \<noteq> StatNotExist
               then (let w2 = record_call (EvRemove filePath) w1
                     in if can_remove w2 filePath
                        then Inr (w2\<lparr>files := (files w2)(filePath := None),
                                    stat_other := (stat_other w2)(filePath := StatNotExist)\<rparr>)
                        else Inl w2)
               else Inr w1) of
           Inl w2 \<Rightarrow> (Inl (FileSystemError OpRemove), w2)
         | Inr w2 \<Rightarrow>
             (let w3 = record_call (EvCreate filePath) w2
              in if can_create w3 filePath
                 then (Inr (), w3\<lparr>files := (files w3)(filePath \<mapsto> [])\<rparr>)
                 else (Inl (FileSystemError OpCreate), w3)))"

text \<open>Lines 291 to 298 of \<^verbatim>\<open>main\<close>: the result is encoded as PNG into the created
  file.\<close>

definition save_output :: "codecs \<Rightarrow> string \<Rightarrow> RGBA_Image \<Rightarrow> world \<Rightarrow> error option \<times> world" where
  "save_output cd fileNameNoExt imageRGBA w =
     (let outFileName = ''out__'' @ fileNameNoExt @ ''.png''
      in case createFile outFileName w of
           (Inl e, w1) \<Rightarrow> (Some e, w1)
         | (Inr _, w1) \<Rightarrow>
             (case encode_with cd PNG (as_Image imageRGBA) of
                None \<Rightarrow> (Some EncodeError, record_call (EvEncode PNG) w1)
              | Some png \<Rightarrow>
                  (None, record_call (EvEncode PNG) (w1\<lparr>files := (files w1)(outFileName \<mapsto> png)\<rparr>))))"

text \<open>Lines 286 to 298 of \<^verbatim>\<open>main\<close>: the transform, the check of its flag, and the
  output.\<close>

definition transform_and_save ::
  "codecs \<Rightarrow> string \<Rightarrow> Image \<Rightarrow> world \<Rightarrow> error option \<times> world" where
  "transform_and_save cd fileNameNoExt imageData w =
     (case makeBackgroundTransparent imageData of
        (ok, imageRGBA) \<Rightarrow>
          if \<not> ok then (Some AlreadyTransparentError, w)
          else (case imageRGBA of
                  None \<Rightarrow> (Some NilDereferencePanic, w)
                | Some rgba \<Rightarrow> save_output cd fileNameNoExt rgba w))"

text \<open>Lines 281 to 284 of \<^verbatim>\<open>main\<close>.\<close>

definition round_trip ::
  "codecs \<Rightarrow> bool \<Rightarrow> Image \<Rightarrow> ImageType \<Rightarrow> world \<Rightarrow> (error + Image) \<times> world" where
  "round_trip cd pipeThroughBase64 imageData imageType w =
     (if pipeThroughBase64
      then (case encodeImageToBase64 cd imageData imageType w of
              (Inl e, w1) \<Rightarrow> (Inl e, w1)
            | (Inr base64Encoded, w1) \<Rightarrow> decodeImageFromBase64 cd (bytes base64Encoded) w1)
      else (Inr imageData, w))"

text \<open>Lines 261 to 273 of \<^verbatim>\<open>main\<close>: the file name and the optional flag. \<open>Args\<close> is
  \<^verbatim>\<open>os.Args\<close>, the program's name first.\<close>

definition parse_args :: "case_mapping \<Rightarrow> string list \<Rightarrow> error + string \<times> bool" where
  "parse_args cm Args =
     (if length Args < 2 then Inl UsageError
      else
        (let fileName = Args ! 1
         in if length Args > 2
            then (case ParseBool (ToLower cm (Args ! 2)) of
                    None \<Rightarrow> Inl UsageError
                  | Some ptb64 \<Rightarrow> Inr (fileName, ptb64))
            else Inr (fileName, False)))"

text \<open>Lines 279 to 298 of \<^verbatim>\<open>main\<close>: load, optional round trip, transform, output.\<close>

definition run_pipeline ::
  "codecs \<Rightarrow> string \<Rightarrow> ImageType \<Rightarrow> string \<Rightarrow> bool \<Rightarrow> world \<Rightarrow> error option \<times> world" where
  "run_pipeline cd fileName imageType fileNameNoExt pipeThroughBase64 w =
     (case loadImage cd fileName imageType w of
        (Inl e, w1) \<Rightarrow> (Some e, w1)
      | (Inr imageData, w1) \<Rightarrow>
          (case round_trip cd pipeThroughBase64 imageData imageType w1 of
             (Inl e, w2) \<Rightarrow> (Some e, w2)
           | (Inr imageData2, w2) \<Rightarrow> transform_and_save cd fileNameNoExt imageData2 w2))"

text \<open>
  \<^verbatim>\<open>func main()\<close> (line 260). The result is the failure that ended the process, or
  \<open>None\<close> for exit status 0, with the world as the process left it. \<^verbatim>\<open>fileExt[1:]\<close>
  (line 276) is a slice expression: on the empty string its low bound 1 exceeds the
  length and Go panics.
\<close>

definition main ::
  "case_mapping \<Rightarrow> codecs \<Rightarrow> string list \<Rightarrow> world \<Rightarrow> error option \<times> world" where
  "main cm cd Args w =
     (case parse_args cm Args of
        Inl e \<Rightarrow> (Some e, w)
      | Inr (fileName, pipeThroughBase64) \<Rightarrow>
          (let fileExt = Ext fileName
           in if length fileExt < 1 then (Some SliceBoundsPanic, w)
              else
                (let imageType = getImageType cm (drop 1 fileExt);
                     fileNameNoExt = take (length fileName - length fileExt) fileName
                 in run_pipeline cd fileName imageType fileNameNoExt pipeThroughBase64 w)))"

text \<open>The last element of a path, and the output name as the specification words it:
  \<^verbatim>\<open>out__<input-basename-without-extension>.png\<close>.\<close>

definition basename :: "string \<Rightarrow> string" where
  "basename path = rev (takeWhile (\<lambda>c. c \<noteq> CHR ''/'') (rev path))"

definition spec_output_name :: "string \<Rightarrow> string" where
  "spec_output_name path =
     (let b = basename path in ''out__'' @ take (length b - length (Ext b)) b @ ''.png'')"

section \<open>Sample inputs\<close>

text \<open>
  The 2 by 2 image of the specification's scenario: red at (0,0), (1,0) and (0,1), green
  at (1,1), all opaque.
\<close>

definition scenario_image :: Image where
  "scenario_image =
     \<lparr>Bounds = \<lparr>rMin = \<lparr>X = 0, Y = 0\<rparr>, rMax = \<lparr>X = 2, Y = 2\<rparr>\<rparr>,
      At = (\<lambda>x y. if x = 1 \<and> y = 1 then \<lparr>R = 0, G = 255, B = 0, A = 255\<rparr>
                   else \<lparr>R = 255, G = 0, B = 0, A = 255\<rparr>)\<rparr>"

text \<open>
  A single opaque white pixel at (1,0): the frame that \<^verbatim>\<open>gif.Decode\<close> returns for a
  GIF whose first frame is 1 by 1 at left offset 1 (the bounds of a frame are its
  position on the logical screen).
\<close>

definition offset_image :: Image where
  "offset_image =
     \<lparr>Bounds = \<lparr>rMin = \<lparr>X = 1, Y = 0\<rparr>, rMax = \<lparr>X = 2, Y = 1\<rparr>\<rparr>,
      At = (\<lambda>x y. \<lparr>R = 255, G = 255, B = 255, A = 255\<rparr>)\<rparr>"

text \<open>
  Two opaque grey pixels in a row at height 2: an image of bounds (0,2)-(2,3), as a
  sub-image or a GIF frame at top offset 2 has them.
\<close>

definition strip_image :: Image where
  "strip_image =
     \<lparr>Bounds = \<lparr>rMin = \<lparr>X = 0, Y = 2\<rparr>, rMax = \<lparr>X = 2, Y = 3\<rparr>\<rparr>,
      At = (\<lambda>x y. \<lparr>R = 128, G = 128, B = 128, A = 255\<rparr>)\<rparr>"

text \<open>A 3 by 1 image: two blue background pixels and a yellow pixel at (2,0).\<close>

definition banner_image :: Image where
  "banner_image =
     \<lparr>Bounds = \<lparr>rMin = \<lparr>X = 0, Y = 0\<rparr>, rMax = \<lparr>X = 3, Y = 1\<rparr>\<rparr>,
      At = (\<lambda>x y. if x = 2 then \<lparr>R = 250, G = 240, B = 10, A = 255\<rparr>
                   else \<lparr>R = 10, G = 20, B = 200, A = 255\<rparr>)\<rparr>"

text \<open>
  An image with a transparent pixel, and a toy codec, for which a file holding the single
  byte 0 decodes to the scenario image, one holding the byte 1 to the transparent image,
  and every encoding is the single byte 2.
\<close>

definition transparent_image :: Image where
  "transparent_image =
     \<lparr>Bounds = \<lparr>rMin = \<lparr>X = 0, Y = 0\<rparr>, rMax = \<lparr>X = 1, Y = 1\<rparr>\<rparr>,
      At = (\<lambda>x y. \<lparr>R = 9, G = 9, B = 9, A = 0\<rparr>)\<rparr>"

definition sample_codecs :: codecs where
  "sample_codecs =
     \<lparr>decode_with = (\<lambda>d content. if content = [0] then Some scenario_image
                                  else if content = [1] then Some transparent_image
                                  else None),
      encode_with = (\<lambda>t img. Some [2])\<rparr>"

text \<open>
  A small file system: the working directory holds five files and the directory
  \<^verbatim>\<open>dir\<close>, which holds one more. A file can be created in the working directory and in
  \<^verbatim>\<open>dir\<close>, the only directories there are, and what exists can be removed.
\<close>

definition sample_world :: world where
  "sample_world =
     \<lparr>files = [''pic.png'' \<mapsto> [0], ''dir/pic.png'' \<mapsto> [0], ''clear.png'' \<mapsto> [1],
               ''notes.xyz'' \<mapsto> [0], ''old.png'' \<mapsto> [0], ''out__old.png'' \<mapsto> [7, 7]],
      stat_other = (\<lambda>p. if p = ''dir'' then StatFound else StatNotExist),
      can_remove = (\<lambda>p. True),
      can_create = (\<lambda>p. if CHR ''/'' \<in> set p then take 4 p = ''dir/'' else True),
      trace = []\<rparr>"

text \<open>The same file system after \<^verbatim>\<open>mkdir out__dir\<close>.\<close>

definition out_dir_world :: world where
  "out_dir_world =
     sample_world
       \<lparr>stat_other := (\<lambda>p. if p = ''dir'' \<or> p = ''out__dir'' then StatFound else StatNotExist),
        can_create := (\<lambda>p. if CHR ''/'' \<in> set p
                            then take 4 p = ''dir/'' \<or> take 9 p = ''out__dir/''
                            else True)\<rparr>"

text \<open>
  A case mapping for the examples: it lower-cases the letters \<^verbatim>\<open>A\<close> to \<^verbatim>\<open>Z\<close> and
  U+0130 (in UTF-8 the bytes C4 B0, lower case \<^verbatim>\<open>i\<close>), as
  \<^verbatim>\<open>strings.Map(unicode.ToLower, s)\<close> does on a string of ASCII characters and U+0130.
\<close>

fun sample_lower :: case_mapping where
  "sample_lower (c # d # s) =
     (if c = CHR 0xC4 \<and> d = CHR 0xB0 then CHR ''i'' # sample_lower s
      else lower_byte c # sample_lower (d # s))"
| "sample_lower s = map lower_byte s"

section \<open>Properties of the colour matcher\<close>

lemma uint8Diff_abs: "uint (uint8Diff a b) = channel_delta a b"
proof (cases "a > b")
  case True
  then have "b \<le> a" by simp
  then have "uint (a - b) = uint a - uint b" by (rule uint_minus_simple_alt [THEN iffD1])
  moreover from True have "uint b < uint a" by (simp add: word_less_def)
  ultimately show ?thesis using True by (simp add: uint8Diff_def channel_delta_def)
next
  case False
  then have le: "a \<le> b" by simp
  then have "uint (b - a) = uint b - uint a" by (rule uint_minus_simple_alt [THEN iffD1])
  moreover from le have "uint a \<le> uint b" by (simp add: word_le_def)
  ultimately show ?thesis using False by (simp add: uint8Diff_def channel_delta_def)
qed

lemma uint8Diff_le_iff:
  "uint8Diff a b \<le> uint8Diff c d \<longleftrightarrow> channel_delta a b \<le> channel_delta c d"
  by (simp add: word_le_def uint8Diff_abs)

lemma uint8Diff_eq_iff:
  "uint8Diff a b = uint8Diff c d \<longleftrightarrow> channel_delta a b = channel_delta c d"
  by (simp add: word_uint_eq_iff uint8Diff_abs)

lemma uint8Diff_le_numeral:
  "uint8Diff a b \<le> 100 \<longleftrightarrow> channel_delta a b \<le> 100"
  "uint8Diff a b \<le> 110 \<longleftrightarrow> channel_delta a b \<le> 110"
  by (simp_all add: word_le_def uint8Diff_abs)

lemma sameColor_refl: "sameColor c c"
  by (simp add: sameColor_def uint8Diff_def Let_def colorToleranceUniform_def)

lemma far_from_not_sameColor: "far_from c bg \<Longrightarrow> \<not> sameColor c bg"
  by (auto simp: far_from_def sameColor_def Let_def colorTolerance_def colorToleranceUniform_def
      uint8Diff_eq_iff uint8Diff_le_numeral)

lemma cleared_self: "cleared c c = c\<lparr>A := 0\<rparr>"
  by (simp add: cleared_def sameColor_refl)

text \<open>
  Claim C1. For every pair of colours, \<^verbatim>\<open>sameColor\<close> looks at the absolute
  differences of the R, G and B channels only (alpha does not occur): when the three
  differences are equal the result is true iff the common difference is at most 100,
  and otherwise it is true iff each of the three differences is at most 110.
\<close>

theorem sameColor_tolerance:
  "sameColor a b =
     (let dR = channel_delta (R a) (R b);
          dG = channel_delta (G a) (G b);
          dB = channel_delta (B a) (B b)
      in if dR = dG \<and> dG = dB then dR \<le> 100
         else dR \<le> 110 \<and> dG \<le> 110 \<and> dB \<le> 110)"
  by (simp add: sameColor_def Let_def colorTolerance_def colorToleranceUniform_def
      uint8Diff_eq_iff uint8Diff_le_numeral)

theorem sameColor_tolerance_witness:
  "sameColor \<lparr>R = 200, G = 100, B = 50, A = 255\<rparr> \<lparr>R = 100, G = 0, B = 150, A = 0\<rparr>
   \<and> \<not> sameColor \<lparr>R = 201, G = 101, B = 51, A = 255\<rparr> \<lparr>R = 100, G = 0, B = 152, A = 255\<rparr>
   \<and> sameColor \<lparr>R = 210, G = 100, B = 50, A = 255\<rparr> \<lparr>R = 100, G = 0, B = 150, A = 255\<rparr>"
  using sameColor_tolerance [of "\<lparr>R = 200, G = 100, B = 50, A = 255\<rparr>" "\<lparr>R = 100, G = 0, B = 150, A = 0\<rparr>"]
    sameColor_tolerance [of "\<lparr>R = 201, G = 101, B = 51, A = 255\<rparr>" "\<lparr>R = 100, G = 0, B = 152, A = 255\<rparr>"]
    sameColor_tolerance [of "\<lparr>R = 210, G = 100, B = 50, A = 255\<rparr>" "\<lparr>R = 100, G = 0, B = 150, A = 255\<rparr>"]
  by (simp add: channel_delta_def)

section \<open>Properties of the image operations\<close>

declare loop_y.simps [simp del] loop_x.simps [simp del]

lemma In_Intersect: "In p (Intersect r s) \<longleftrightarrow> In p r \<and> In p s"
  by (auto simp: Intersect_def In_def Empty_def ZR_def ZP_def Let_def)

lemma In_not_Empty: "In p r \<Longrightarrow> \<not> Empty r"
  by (auto simp: In_def Empty_def)

lemma In_origin:
  "rMin b = ZP \<Longrightarrow> In (Pt x y) b \<longleftrightarrow> 0 \<le> x \<and> x < Dx b \<and> 0 \<le> y \<and> y < Dy b"
  by (auto simp: In_def Pt_def ZP_def Dx_def Dy_def)

lemma Rect_SetRGBA [simp]: "Rect (SetRGBA p x y c) = Rect p"
  by (simp add: SetRGBA_def)

lemma Rect_pixel_step [simp]: "Rect (pixel_step x y bg img) = Rect img"
  by (simp add: pixel_step_def Let_def)

lemma Rect_loop_y [simp]: "Rect (loop_y x y h bg img) = Rect img"
proof (induction x y h bg img rule: loop_y.induct)
  case (1 x y h bg img)
  then show ?case by (subst loop_y.simps) simp
qed

lemma Rect_loop_x [simp]: "Rect (loop_x x w h bg img) = Rect img"
proof (induction x w h bg img rule: loop_x.induct)
  case (1 x w h bg img)
  then show ?case by (subst loop_x.simps) simp
qed

text \<open>The loops visit each point of \<open>[0, width) \<times> [0, height)\<close> once, so the result at
  a point depends on the colour the point had before the loops only.\<close>

lemma RGBAAt_pixel_step:
  "RGBAAt (pixel_step x y bg img) px py =
     (if px = x \<and> py = y then cleared bg (RGBAAt img x y) else RGBAAt img px py)"
  by (auto simp: pixel_step_def Let_def RGBAAt_def SetRGBA_def cleared_def RGBA_zero_def Pt_def)

lemma RGBAAt_loop_y:
  "RGBAAt (loop_y x y h bg img) px py =
     (if px = x \<and> y \<le> py \<and> py < h then cleared bg (RGBAAt img px py) else RGBAAt img px py)"
proof (induction x y h bg img rule: loop_y.induct)
  case (1 x y h bg img)
  show ?case
  proof (cases "y < h")
    case True
    then show ?thesis
      using "1.IH" [OF True] by (subst loop_y.simps) (auto simp: RGBAAt_pixel_step)
  next
    case False
    then show ?thesis by (subst loop_y.simps) auto
  qed
qed

lemma RGBAAt_loop_x:
  "RGBAAt (loop_x x w h bg img) px py =
     (if x \<le> px \<and> px < w \<and> 0 \<le> py \<and> py < h
      then cleared bg (RGBAAt img px py) else RGBAAt img px py)"
proof (induction x w h bg img rule: loop_x.induct)
  case (1 x w h bg img)
  show ?case
  proof (cases "x < w")
    case True
    then show ?thesis
      using "1.IH" [OF True] by (subst loop_x.simps) (auto simp: RGBAAt_loop_y)
  next
    case False
    then show ?thesis by (subst loop_x.simps) auto
  qed
qed

lemma Opaque_iff:
  "Opaque p \<longleftrightarrow> (\<forall>x y. In (Pt x y) (Rect p) \<longrightarrow> A (RGBAAt p x y) = 255)"
  by (fastforce simp: Opaque_def list_all_iff In_def Pt_def RGBAAt_def Empty_def)

lemma not_Opaque_iff:
  "\<not> Opaque p \<longleftrightarrow> (\<exists>x y. In (Pt x y) (Rect p) \<and> A (RGBAAt p x y) \<noteq> 255)"
  unfolding Opaque_iff by blast

lemma not_Opaque_zero:
  "In (Pt x y) (Rect p) \<Longrightarrow> RGBAAt p x y = RGBA_zero \<Longrightarrow> \<not> Opaque p"
proof
  assume "In (Pt x y) (Rect p)" and z: "RGBAAt p x y = RGBA_zero" and "Opaque p"
  then have "A (RGBAAt p x y) = 255" unfolding Opaque_iff by blast
  with z show False by (simp add: RGBA_zero_def)
qed

text \<open>
  The conversion draws from source point \<^verbatim>\<open>image.ZP\<close>: the pixel at \<open>(x, y)\<close> of the
  result is the source colour at \<open>(x, y) - Min\<close>, where that point lies in the bounds, and
  stays \<^verbatim>\<open>color.RGBA{}\<close> elsewhere.
\<close>

lemma Rect_convertRGBA [simp]: "Rect (convertRGBA img) = Bounds img"
  by (simp add: convertRGBA_def Draw_def NewRGBA_def Let_def)

lemma RGBAAt_convertRGBA:
  "RGBAAt (convertRGBA img) x y =
     (if In (Pt x y) (Bounds img) \<and>
         In (Pt (x - X (rMin (Bounds img))) (y - Y (rMin (Bounds img)))) (Bounds img)
      then At img (x - X (rMin (Bounds img))) (y - Y (rMin (Bounds img)))
      else RGBA_zero)"
proof -
  let ?b = "Bounds img"
  let ?r2 = "Intersect (Intersect ?b ?b) (Add_rect ?b (Sub_pt (rMin ?b) ZP))"
  have in_r2: "In (Pt x y) ?r2 \<longleftrightarrow>
      In (Pt x y) ?b \<and> In (Pt (x - X (rMin ?b)) (y - Y (rMin ?b))) ?b"
  proof -
    have "In (Pt x y) (Add_rect ?b (Sub_pt (rMin ?b) ZP)) \<longleftrightarrow>
        In (Pt (x - X (rMin ?b)) (y - Y (rMin ?b))) ?b"
      by (auto simp: In_def Pt_def Add_rect_def Add_pt_def Sub_pt_def ZP_def)
    then show ?thesis by (simp only: In_Intersect) blast
  qed
  show ?thesis
  proof (cases "In (Pt x y) ?r2")
    case True
    then have "In (Pt x y) ?b" by (simp add: in_r2)
    with True show ?thesis
      using in_r2
      by (simp add: RGBAAt_def convertRGBA_def Draw_def NewRGBA_def Let_def
          Add_pt_def Sub_pt_def ZP_def)
  next
    case False
    then show ?thesis
      using in_r2
      by (simp add: RGBAAt_def convertRGBA_def Draw_def NewRGBA_def Let_def)
  qed
qed

lemma RGBAAt_convertRGBA_origin:
  "rMin (Bounds img) = ZP \<Longrightarrow>
     RGBAAt (convertRGBA img) x y = (if In (Pt x y) (Bounds img) then At img x y else RGBA_zero)"
  by (simp add: RGBAAt_convertRGBA ZP_def)

lemma Opaque_convertRGBA_originI:
  assumes "rMin (Bounds img) = ZP"
    and "\<And>x y. In (Pt x y) (Bounds img) \<Longrightarrow> A (At img x y) = 255"
  shows "Opaque (convertRGBA img)"
  using assms by (simp add: Opaque_iff RGBAAt_convertRGBA_origin)

text \<open>A non-empty image whose bounds do not start at the origin is never opaque after
  the conversion.\<close>

lemma Opaque_convertRGBA_origin:
  assumes op: "Opaque (convertRGBA img)" and ne: "\<not> Empty (Bounds img)"
  shows "rMin (Bounds img) = ZP"
proof -
  let ?b = "Bounds img"
  let ?x0 = "X (rMin ?b)" and ?y0 = "Y (rMin ?b)" and ?x1 = "X (rMax ?b)" and ?y1 = "Y (rMax ?b)"
  from ne have lt: "?x0 < ?x1" "?y0 < ?y1" by (simp_all add: Empty_def)
  have drawn: "In (Pt (x - ?x0) (y - ?y0)) ?b" if "In (Pt x y) ?b" for x y
  proof (rule ccontr)
    assume "\<not> In (Pt (x - ?x0) (y - ?y0)) ?b"
    with that have "RGBAAt (convertRGBA img) x y = RGBA_zero"
      by (simp add: RGBAAt_convertRGBA)
    moreover from op that have "A (RGBAAt (convertRGBA img) x y) = 255"
      by (simp add: Opaque_iff)
    ultimately show False by (simp add: RGBA_zero_def)
  qed
  have "In (Pt ?x0 ?y0) ?b" using lt by (simp add: In_def Pt_def)
  from drawn [OF this] have le0: "?x0 \<le> 0" "?y0 \<le> 0" by (simp_all add: In_def Pt_def)
  have "In (Pt (?x1 - 1) (?y1 - 1)) ?b" using lt by (simp add: In_def Pt_def)
  from drawn [OF this] have "0 \<le> ?x0" "0 \<le> ?y0" by (simp_all add: In_def Pt_def)
  with le0 have "?x0 = 0" "?y0 = 0" by simp_all
  then show ?thesis by (cases "rMin ?b") (simp add: ZP_def)
qed

section \<open>Properties of the transparency transform\<close>

lemma makeBackgroundTransparent_fst:
  "fst (makeBackgroundTransparent img) = Opaque (convertRGBA img)"
  by (simp add: makeBackgroundTransparent_def Let_def)

lemma makeBackgroundTransparent_True:
  "makeBackgroundTransparent img = (True, res) \<Longrightarrow> Opaque (convertRGBA img)"
  using makeBackgroundTransparent_fst [of img] by simp

lemma makeBackgroundTransparent_not_Opaque:
  "\<not> Opaque (convertRGBA img) \<Longrightarrow> makeBackgroundTransparent img = (False, None)"
  by (simp add: makeBackgroundTransparent_def Let_def)

lemma makeBackgroundTransparent_Opaque:
  assumes "Opaque (convertRGBA img)"
  shows "\<exists>out. makeBackgroundTransparent img = (True, Some out) \<and>
    Rect out = Bounds img \<and>
    (\<forall>x y. RGBAAt out x y =
      (if 0 \<le> x \<and> x < Dx (Bounds img) \<and> 0 \<le> y \<and> y < Dy (Bounds img)
       then cleared (RGBAAt (convertRGBA img) 0 0) (RGBAAt (convertRGBA img) x y)
       else RGBAAt (convertRGBA img) x y))"
  using assms by (simp add: makeBackgroundTransparent_def Let_def RGBAAt_loop_x)

lemma makeBackgroundTransparent_origin:
  assumes org: "rMin (Bounds img) = ZP"
    and op: "\<And>x y. In (Pt x y) (Bounds img) \<Longrightarrow> A (At img x y) = 255"
  shows "\<exists>out. makeBackgroundTransparent img = (True, Some out) \<and>
    Rect out = Bounds img \<and>
    (\<forall>x y. In (Pt x y) (Bounds img) \<longrightarrow>
           RGBAAt out x y = cleared (At img 0 0) (At img x y))"
proof -
  have "Opaque (convertRGBA img)" using org op by (rule Opaque_convertRGBA_originI)
  then obtain out where out: "makeBackgroundTransparent img = (True, Some out)"
    "Rect out = Bounds img"
    "\<And>x y. RGBAAt out x y =
      (if 0 \<le> x \<and> x < Dx (Bounds img) \<and> 0 \<le> y \<and> y < Dy (Bounds img)
       then cleared (RGBAAt (convertRGBA img) 0 0) (RGBAAt (convertRGBA img) x y)
       else RGBAAt (convertRGBA img) x y)"
    using makeBackgroundTransparent_Opaque [of img] by blast
  have "RGBAAt out x y = cleared (At img 0 0) (At img x y)" if "In (Pt x y) (Bounds img)" for x y
  proof -
    from that org have rng: "0 \<le> x \<and> x < Dx (Bounds img) \<and> 0 \<le> y \<and> y < Dy (Bounds img)"
      by (simp add: In_origin)
    then have "In (Pt 0 0) (Bounds img)" using org by (simp add: In_origin)
    with that rng org show ?thesis by (simp add: out(3) RGBAAt_convertRGBA_origin)
  qed
  with out(1,2) show ?thesis by blast
qed

text \<open>
  For an image whose bounds start at the origin, filled with one opaque colour, the
  transform is applied, every pixel of the result has alpha 0, and the other three
  channels are those of the input.
\<close>

lemma solid_image_transparent:
  assumes org: "rMin (Bounds img) = ZP"
    and solid: "\<And>x y. In (Pt x y) (Bounds img) \<Longrightarrow> At img x y = c"
    and op: "A c = 255"
  shows "\<exists>out. makeBackgroundTransparent img = (True, Some out) \<and> Rect out = Bounds img \<and>
           (\<forall>x y. In (Pt x y) (Bounds img) \<longrightarrow> RGBAAt out x y = c\<lparr>A := 0\<rparr>)"
proof -
  from solid op have "\<And>x y. In (Pt x y) (Bounds img) \<Longrightarrow> A (At img x y) = 255" by simp
  with org obtain out where out: "makeBackgroundTransparent img = (True, Some out)"
    "Rect out = Bounds img"
    "\<And>x y. In (Pt x y) (Bounds img) \<Longrightarrow> RGBAAt out x y = cleared (At img 0 0) (At img x y)"
    using makeBackgroundTransparent_origin [of img] by blast
  have "RGBAAt out x y = c\<lparr>A := 0\<rparr>" if "In (Pt x y) (Bounds img)" for x y
  proof -
    from that org have "In (Pt 0 0) (Bounds img)" by (simp add: In_origin)
    then have "At img 0 0 = c" by (rule solid)
    with that show ?thesis by (simp add: out(3) solid cleared_self)
  qed
  with out(1,2) show ?thesis by blast
qed

lemma offset_image_not_applied:
  "In (Pt 1 0) (Bounds offset_image) \<and> A (At offset_image 1 0) = 255
   \<and> makeBackgroundTransparent offset_image = (False, None)"
proof -
  have b: "Bounds offset_image = \<lparr>rMin = \<lparr>X = 1, Y = 0\<rparr>, rMax = \<lparr>X = 2, Y = 1\<rparr>\<rparr>"
    by (simp add: offset_image_def)
  have i: "In (Pt 1 0) (Bounds offset_image)"
    by (simp add: b In_def Pt_def)
  have "RGBAAt (convertRGBA offset_image) 1 0 = RGBA_zero"
    by (simp add: RGBAAt_convertRGBA b In_def Pt_def)
  moreover from i have "In (Pt 1 0) (Rect (convertRGBA offset_image))"
    by simp
  ultimately have "\<not> Opaque (convertRGBA offset_image)"
    by (rule not_Opaque_zero [rotated])
  then have "makeBackgroundTransparent offset_image = (False, None)"
    by (rule makeBackgroundTransparent_not_Opaque)
  moreover have "A (At offset_image 1 0) = 255"
    by (simp add: offset_image_def)
  ultimately show ?thesis using i by simp
qed

text \<open>The transform run again on an output that is no longer opaque is not applied.\<close>

lemma rerun_not_applied:
  assumes m: "makeBackgroundTransparent img = (True, Some out)" and n: "\<not> Opaque out"
  shows "makeBackgroundTransparent (as_Image out) = (False, None)"
proof -
  from m have op: "Opaque (convertRGBA img)" by (rule makeBackgroundTransparent_True)
  from makeBackgroundTransparent_Opaque [OF op] m have r: "Rect out = Bounds img" by auto
  from n obtain x y where xy: "In (Pt x y) (Rect out)" "A (RGBAAt out x y) \<noteq> 255"
    unfolding not_Opaque_iff by blast
  from xy(1) r have "\<not> Empty (Bounds img)" by (auto dest: In_not_Empty)
  with op have "rMin (Bounds img) = ZP" by (rule Opaque_convertRGBA_origin)
  with r have org: "rMin (Bounds (as_Image out)) = ZP" by (simp add: as_Image_def)
  have "RGBAAt (convertRGBA (as_Image out)) x y = RGBAAt out x y"
    using xy(1) by (simp add: RGBAAt_convertRGBA_origin [OF org]) (simp add: as_Image_def)
  moreover have "In (Pt x y) (Rect (convertRGBA (as_Image out)))"
    using xy(1) by (simp add: as_Image_def)
  ultimately have "\<not> Opaque (convertRGBA (as_Image out))"
    unfolding not_Opaque_iff using xy(2) by metis
  then show ?thesis by (rule makeBackgroundTransparent_not_Opaque)
qed

text \<open>
  Claim C2. For every fully opaque input image filled with one solid colour,
  \<^verbatim>\<open>makeBackgroundTransparent\<close> returns applied = true and a result in which every pixel
  has alpha 0 and the R, G, B values of the input. The code does not do so for an image
  whose bounds do not start at (0,0): at the opaque white one-pixel frame with bounds
  (1,0)-(2,1) the conversion draws nothing, the converted image is transparent, and the
  transform returns \<^verbatim>\<open>(false, nil)\<close>.
\<close>

theorem offset_frame_not_applied:
  "Bounds offset_image = \<lparr>rMin = \<lparr>X = 1, Y = 0\<rparr>, rMax = \<lparr>X = 2, Y = 1\<rparr>\<rparr>
   \<and> At offset_image 1 0 = \<lparr>R = 255, G = 255, B = 255, A = 255\<rparr>
   \<and> makeBackgroundTransparent offset_image = (False, None)"
  using offset_image_not_applied by (simp add: offset_image_def)

lemma makeBackgroundTransparent_scenario:
  "\<exists>out. makeBackgroundTransparent scenario_image = (True, Some out)
     \<and> RGBAAt out 0 0 = \<lparr>R = 255, G = 0, B = 0, A = 0\<rparr>
     \<and> In (Pt 0 0) (Rect out)"
proof -
  have org: "rMin (Bounds scenario_image) = ZP" by (simp add: scenario_image_def ZP_def)
  have op: "\<And>x y. In (Pt x y) (Bounds scenario_image) \<Longrightarrow> A (At scenario_image x y) = 255"
    by (simp add: scenario_image_def)
  from org op obtain out where out: "makeBackgroundTransparent scenario_image = (True, Some out)"
    "Rect out = Bounds scenario_image"
    "\<And>x y. In (Pt x y) (Bounds scenario_image) \<Longrightarrow>
       RGBAAt out x y = cleared (At scenario_image 0 0) (At scenario_image x y)"
    using makeBackgroundTransparent_origin [of scenario_image] by blast
  have i: "In (Pt 0 0) (Bounds scenario_image)" by (simp add: scenario_image_def In_def Pt_def)
  have "RGBAAt out 0 0 = \<lparr>R = 255, G = 0, B = 0, A = 0\<rparr>"
    by (simp add: out(3) [OF i] cleared_self) (simp add: scenario_image_def)
  with out(1,2) i show ?thesis by auto
qed

text \<open>
  Claim C4. For the opaque 2 by 2 image with red at (0,0), (1,0) and (0,1) and green
  at (1,1), the transform is applied; the output alphas at these positions are 0, 0, 0
  and 255, and the R, G, B values are unchanged.
\<close>

theorem scenario_2x2:
  "\<exists>out. makeBackgroundTransparent scenario_image = (True, Some out)
     \<and> RGBAAt out 0 0 = \<lparr>R = 255, G = 0, B = 0, A = 0\<rparr>
     \<and> RGBAAt out 1 0 = \<lparr>R = 255, G = 0, B = 0, A = 0\<rparr>
     \<and> RGBAAt out 0 1 = \<lparr>R = 255, G = 0, B = 0, A = 0\<rparr>
     \<and> RGBAAt out 1 1 = \<lparr>R = 0, G = 255, B = 0, A = 255\<rparr>"
proof -
  have org: "rMin (Bounds scenario_image) = ZP" by (simp add: scenario_image_def ZP_def)
  have op: "\<And>x y. In (Pt x y) (Bounds scenario_image) \<Longrightarrow> A (At scenario_image x y) = 255"
    by (simp add: scenario_image_def)
  from org op obtain out where out: "makeBackgroundTransparent scenario_image = (True, Some out)"
    "\<And>x y. In (Pt x y) (Bounds scenario_image) \<Longrightarrow>
       RGBAAt out x y = cleared (At scenario_image 0 0) (At scenario_image x y)"
    using makeBackgroundTransparent_origin [of scenario_image] by blast
  have ins: "In (Pt 0 0) (Bounds scenario_image)" "In (Pt 1 0) (Bounds scenario_image)"
    "In (Pt 0 1) (Bounds scenario_image)" "In (Pt 1 1) (Bounds scenario_image)"
    by (simp_all add: scenario_image_def In_def Pt_def)
  have "RGBAAt out 0 0 = \<lparr>R = 255, G = 0, B = 0, A = 0\<rparr>"
    by (simp add: out(2) [OF ins(1)]) (simp add: scenario_image_def cleared_def sameColor_def uint8Diff_def colorTolerance_def colorToleranceUniform_def)
  moreover have "RGBAAt out 1 0 = \<lparr>R = 255, G = 0, B = 0, A = 0\<rparr>"
    by (simp add: out(2) [OF ins(2)]) (simp add: scenario_image_def cleared_def sameColor_def uint8Diff_def colorTolerance_def colorToleranceUniform_def)
  moreover have "RGBAAt out 0 1 = \<lparr>R = 255, G = 0, B = 0, A = 0\<rparr>"
    by (simp add: out(2) [OF ins(3)]) (simp add: scenario_image_def cleared_def sameColor_def uint8Diff_def colorTolerance_def colorToleranceUniform_def)
  moreover have "RGBAAt out 1 1 = \<lparr>R = 0, G = 255, B = 0, A = 255\<rparr>"
    by (simp add: out(2) [OF ins(4)]) (simp add: scenario_image_def cleared_def sameColor_def uint8Diff_def colorTolerance_def colorToleranceUniform_def)
  ultimately show ?thesis using out(1) by blast
qed

text \<open>
  Claim C5. Take a fully opaque image in which every pixel has the background colour
  (the colour at (0,0)) or a colour that differs from it by more than 110 in some
  channel. In every output of the transform, each background pixel has alpha 0 and the
  R, G, B values it had in the input, each foreground pixel has the alpha and the
  R, G, B values it had in the input, and a pixel of alpha 0 is a background pixel. (The
  transform yields an output whenever the bounds of the image start at the origin.)
\<close>

theorem foreground_untouched:
  assumes op: "\<forall>x y. In (Pt x y) (Bounds img) \<longrightarrow> A (At img x y) = 255"
    and parts: "\<forall>x y. In (Pt x y) (Bounds img) \<longrightarrow>
        At img x y = At img 0 0 \<or> far_from (At img x y) (At img 0 0)"
  shows "(rMin (Bounds img) = ZP \<longrightarrow>
            (\<exists>out. makeBackgroundTransparent img = (True, Some out)))
    \<and> (\<forall>out. makeBackgroundTransparent img = (True, Some out) \<longrightarrow>
          Rect out = Bounds img \<and>
          (\<forall>x y. In (Pt x y) (Bounds img) \<longrightarrow>
             (At img x y = At img 0 0 \<longrightarrow> RGBAAt out x y = (At img x y)\<lparr>A := 0\<rparr>) \<and>
             (far_from (At img x y) (At img 0 0) \<longrightarrow> RGBAAt out x y = At img x y) \<and>
             (A (RGBAAt out x y) = 0 \<longrightarrow> At img x y = At img 0 0)))"
proof (intro conjI allI impI)
  assume "rMin (Bounds img) = ZP"
  then have "Opaque (convertRGBA img)" using op by (intro Opaque_convertRGBA_originI) blast+
  then show "\<exists>out. makeBackgroundTransparent img = (True, Some out)"
    using makeBackgroundTransparent_Opaque by blast
next
  fix out
  assume m: "makeBackgroundTransparent img = (True, Some out)"
  then have o: "Opaque (convertRGBA img)" by (rule makeBackgroundTransparent_True)
  from makeBackgroundTransparent_Opaque [OF o] m show "Rect out = Bounds img" by auto
  fix x y
  assume i: "In (Pt x y) (Bounds img)"
  then have "\<not> Empty (Bounds img)" by (rule In_not_Empty)
  with o have org: "rMin (Bounds img) = ZP" by (rule Opaque_convertRGBA_origin)
  from makeBackgroundTransparent_origin [OF org] op m i
  have px: "RGBAAt out x y = cleared (At img 0 0) (At img x y)" by auto
  {
    assume "At img x y = At img 0 0"
    with px show "RGBAAt out x y = (At img x y)\<lparr>A := 0\<rparr>" by (simp add: cleared_self)
  }
  {
    assume "far_from (At img x y) (At img 0 0)"
    then have "\<not> sameColor (At img x y) (At img 0 0)" by (rule far_from_not_sameColor)
    with px show "RGBAAt out x y = At img x y" by (simp add: cleared_def)
  }
  {
    assume z: "A (RGBAAt out x y) = 0"
    show "At img x y = At img 0 0"
    proof (rule ccontr)
      assume "At img x y \<noteq> At img 0 0"
      with parts i have "far_from (At img x y) (At img 0 0)" by blast
      then have "\<not> sameColor (At img x y) (At img 0 0)" by (rule far_from_not_sameColor)
      with px have "RGBAAt out x y = At img x y" by (simp add: cleared_def)
      with z op i show False by auto
    qed
  }
qed

theorem foreground_untouched_witness:
  "\<exists>out. makeBackgroundTransparent banner_image = (True, Some out)
     \<and> RGBAAt out 0 0 = \<lparr>R = 10, G = 20, B = 200, A = 0\<rparr>
     \<and> RGBAAt out 1 0 = \<lparr>R = 10, G = 20, B = 200, A = 0\<rparr>
     \<and> RGBAAt out 2 0 = \<lparr>R = 250, G = 240, B = 10, A = 255\<rparr>"
proof -
  have b: "Bounds banner_image = \<lparr>rMin = \<lparr>X = 0, Y = 0\<rparr>, rMax = \<lparr>X = 3, Y = 1\<rparr>\<rparr>"
    by (simp add: banner_image_def)
  have at: "At banner_image 0 0 = \<lparr>R = 10, G = 20, B = 200, A = 255\<rparr>"
    "At banner_image 1 0 = \<lparr>R = 10, G = 20, B = 200, A = 255\<rparr>"
    "At banner_image 2 0 = \<lparr>R = 250, G = 240, B = 10, A = 255\<rparr>"
    by (simp_all add: banner_image_def)
  have far: "far_from \<lparr>R = 250, G = 240, B = 10, A = 255\<rparr> \<lparr>R = 10, G = 20, B = 200, A = 255\<rparr>"
    by (simp add: far_from_def channel_delta_def)
  have op: "\<forall>x y. In (Pt x y) (Bounds banner_image) \<longrightarrow> A (At banner_image x y) = 255"
    by (simp add: banner_image_def)
  have parts: "\<forall>x y. In (Pt x y) (Bounds banner_image) \<longrightarrow>
      At banner_image x y = At banner_image 0 0
      \<or> far_from (At banner_image x y) (At banner_image 0 0)"
    using far by (simp add: banner_image_def)
  have org: "rMin (Bounds banner_image) = ZP" by (simp add: b ZP_def)
  have i: "In (Pt 0 0) (Bounds banner_image)" "In (Pt 1 0) (Bounds banner_image)"
    "In (Pt 2 0) (Bounds banner_image)" by (simp_all add: b In_def Pt_def)
  note t = foreground_untouched [OF op parts]
  from t org obtain out where m: "makeBackgroundTransparent banner_image = (True, Some out)"
    by blast
  with t have px: "\<And>x y. In (Pt x y) (Bounds banner_image) \<Longrightarrow>
      (At banner_image x y = At banner_image 0 0 \<longrightarrow>
         RGBAAt out x y = (At banner_image x y)\<lparr>A := 0\<rparr>) \<and>
      (far_from (At banner_image x y) (At banner_image 0 0) \<longrightarrow>
         RGBAAt out x y = At banner_image x y)"
    by blast
  from px [OF i(1)] have "RGBAAt out 0 0 = \<lparr>R = 10, G = 20, B = 200, A = 0\<rparr>"
    by (simp add: at)
  moreover from px [OF i(2)] have "RGBAAt out 1 0 = \<lparr>R = 10, G = 20, B = 200, A = 0\<rparr>"
    by (simp add: at)
  moreover from px [OF i(3)] far have "RGBAAt out 2 0 = \<lparr>R = 250, G = 240, B = 10, A = 255\<rparr>"
    by (simp add: at)
  ultimately show ?thesis using m by blast
qed

section \<open>Properties of format resolution and of the path functions\<close>

lemma ToLower_Nil: "ToLower cm [] = []" by (simp add: ToLower_def isASCII_def)

lemma ToLower_ASCII: "isASCII s \<Longrightarrow> ToLower cm s = map lower_byte s"
  by (simp add: ToLower_def)




lemma Ext_scan_suffix:
  "\<exists>pre. rev before @ passed = pre @ Ext_scan before passed"
proof (induction before arbitrary: passed)
  case Nil
  show ?case by simp
next
  case (Cons c before)
  from Cons.IH [of "c # passed"] show ?case by auto
qed

lemma Ext_suffix: "\<exists>pre. path = pre @ Ext path"
  using Ext_scan_suffix [of "rev path" "[]"] by (simp add: Ext_def)

lemma take_Ext: "take (length path - length (Ext path)) path @ Ext path = path"
proof -
  obtain pre where p: "path = pre @ Ext path" using Ext_suffix by blast
  then have "length path - length (Ext path) = length pre"
    by (metis add_diff_cancel_right' length_append)
  with p show ?thesis by (metis append_eq_conv_conj)
qed

lemma Ext_examples:
  "Ext ''notes.xyz'' = ''.xyz''" "Ext ''missing.xyz'' = ''.xyz''" "Ext ''README'' = []"
  "Ext ''pic.png'' = ''.png''" "Ext ''dir/pic.png'' = ''.png''" "Ext ''clear.png'' = ''.png''"
  "Ext ''old.png'' = ''.png''" "Ext ''a.b/c'' = []"
  by (simp_all add: Ext_def)

lemma basename_no_separator: "CHR ''/'' \<notin> set path \<Longrightarrow> basename path = path"
proof -
  assume "CHR ''/'' \<notin> set path"
  then have "takeWhile (\<lambda>c. c \<noteq> CHR ''/'') (rev path) = rev path"
    by (intro takeWhile_eq_all_conv [THEN iffD2]) auto
  then show ?thesis unfolding basename_def by (simp only: rev_rev_ident)
qed

section \<open>Properties of the base64 stage\<close>

lemma EncodeToString_examples:
  "EncodeToString (bytes ''ABC'') = ''QUJD''"
  "EncodeToString (bytes ''AB'') = ''QUI=''"
  "EncodeToString (bytes ''A'') = ''QQ==''"
  "EncodeToString (bytes ''Man is d'') = ''TWFuIGlzIGQ=''"
  by (simp_all add: bytes_def enc6_def encodeStd_def)

lemma Decode_examples:
  "Decode (bytes ''QUJD'') = Some (bytes ''ABC'')"
  "Decode (bytes ''QUI='') = Some (bytes ''AB'')"
  "Decode (bytes ''QQ=='') = Some (bytes ''A'')"
  "Decode (bytes ''QQ='') = None"
  "Decode (bytes ''Q'') = None"
  "Decode (bytes ''QU JD'') = None"
  by (simp_all add: Decode_def bytes_def decodeMap_def encodeStd_def quantum_bytes_def
      is_newline_def)

text \<open>Decoding undoes encoding: every alphabet character decodes to its position, and
  the four 6-bit values of a quantum give its three bytes back.\<close>

lemma index_of_nth: "distinct xs \<Longrightarrow> k < length xs \<Longrightarrow> index_of (xs ! k) xs = Some k"
proof (induction xs arbitrary: k)
  case Nil
  then show ?case by simp
next
  case (Cons x xs)
  show ?case
  proof (cases k)
    case 0
    then show ?thesis by simp
  next
    case (Suc j)
    with Cons.prems have "xs ! j \<in> set xs" "x \<notin> set xs" by auto
    then have "x \<noteq> xs ! j" by auto
    with Suc Cons show ?thesis by simp
  qed
qed

lemma distinct_alphabet: "distinct (bytes encodeStd)"
  by (simp add: bytes_def encodeStd_def)

lemma length_alphabet: "length (bytes encodeStd) = 64" "length encodeStd = 64"
  by (simp_all add: bytes_def encodeStd_def)

lemma decodeMap_enc6: "decodeMap (of_char (enc6 v)) = Some (v mod 64)"
proof -
  have "of_char (enc6 v) = bytes encodeStd ! (v mod 64)"
    by (simp add: enc6_def bytes_def length_alphabet)
  then show ?thesis
    by (simp add: decodeMap_def index_of_nth distinct_alphabet length_alphabet)
qed

lemma decodeMap_pad: "decodeMap 61 = None" "\<not> is_newline 61"
  by (simp_all add: decodeMap_def bytes_def encodeStd_def is_newline_def)

lemma sextets:
  fixes val :: nat
  assumes "val < 16777216"
  shows "(val div 262144) mod 64 * 262144 + (val div 4096) mod 64 * 4096
         + (val div 64) mod 64 * 64 + val mod 64 = val"
proof -
  have a: "(val div 262144) mod 64 = val div 262144" using assms by simp
  have 1: "val = (val div 64) * 64 + val mod 64" by simp
  have "val div 64 div 64 = val div 4096" by (simp add: div_mult2_eq [symmetric])
  then have 2: "val div 64 = (val div 4096) * 64 + (val div 64) mod 64"
    using div_mult_mod_eq [of "val div 64" 64] by simp
  have "val div 4096 div 64 = val div 262144" by (simp add: div_mult2_eq [symmetric])
  then have 3: "val div 4096 = (val div 262144) * 64 + (val div 4096) mod 64"
    using div_mult_mod_eq [of "val div 4096" 64] by simp
  show ?thesis unfolding a using 1 2 3 by linarith
qed

lemma uint8_mult_256: "(a :: uint8) * 256 = 0" "(a :: uint8) * 65536 = 0"
proof -
  have z: "(256 :: uint8) = 0" "(65536 :: uint8) = 0" by simp_all
  show "a * 256 = 0" by (simp only: z mult_zero_right)
  show "a * 65536 = 0" by (simp only: z mult_zero_right)
qed

lemma quantum_bytes_val:
  "quantum_bytes [d0, d1, d2, d3] =
     (let val = d0 * 262144 + d1 * 4096 + d2 * 64 + d3
      in [of_nat (val div 65536), of_nat (val div 256), of_nat val])"
  "quantum_bytes [d0, d1, d2] =
     (let val = d0 * 262144 + d1 * 4096 + d2 * 64
      in [of_nat (val div 65536), of_nat (val div 256)])"
  "quantum_bytes [d0, d1] =
     (let val = d0 * 262144 + d1 * 4096 in [of_nat (val div 65536)])"
  by (simp_all add: quantum_bytes_def Let_def)

lemma unat_uint8_less: "unat (a :: uint8) < 256"
  using unsigned_less [of a, where 'a = nat] by simp

lemma quantum_bytes_full:
  fixes a b c :: uint8
  assumes val: "val = unat a * 65536 + unat b * 256 + unat c"
    and d: "d0 = (val div 262144) mod 64" "d1 = (val div 4096) mod 64"
      "d2 = (val div 64) mod 64" "d3 = val mod 64"
  shows "quantum_bytes [d0, d1, d2, d3] = [a, b, c]"
proof -
  have ub: "unat a < 256" "unat b < 256" "unat c < 256" by (rule unat_uint8_less)+
  then have lt: "val < 16777216" by (simp add: val)
  have v: "d0 * 262144 + d1 * 4096 + d2 * 64 + d3 = val"
    unfolding d using lt by (rule sextets)
  have "val div 65536 = unat a" using ub by (simp add: val)
  then have 1: "(of_nat (val div 65536) :: uint8) = a" by simp
  have "val div 256 = unat a * 256 + unat b" using ub by (simp add: val)
  then have 2: "(of_nat (val div 256) :: uint8) = b" by (simp add: uint8_mult_256)
  have 3: "(of_nat val :: uint8) = c" by (simp add: val uint8_mult_256)
  show ?thesis by (simp only: quantum_bytes_val Let_def v 1 2 3)
qed

lemma quantum_bytes_two:
  fixes a b :: uint8
  assumes val: "val = unat a * 65536 + unat b * 256"
    and d: "d0 = (val div 262144) mod 64" "d1 = (val div 4096) mod 64"
      "d2 = (val div 64) mod 64"
  shows "quantum_bytes [d0, d1, d2] = [a, b]"
proof -
  have ub: "unat a < 256" "unat b < 256" by (rule unat_uint8_less)+
  then have lt: "val < 16777216" by (simp add: val)
  have m: "val mod 64 = 0" by (simp add: val)
  have "d0 * 262144 + d1 * 4096 + d2 * 64 + val mod 64 = val"
    unfolding d using lt by (rule sextets)
  then have v: "d0 * 262144 + d1 * 4096 + d2 * 64 = val" by (simp only: m add_0_right)
  have "val div 65536 = unat a" using ub by (simp add: val)
  then have 1: "(of_nat (val div 65536) :: uint8) = a" by simp
  have "val div 256 = unat a * 256 + unat b" using ub by (simp add: val)
  then have 2: "(of_nat (val div 256) :: uint8) = b" by (simp add: uint8_mult_256)
  show ?thesis by (simp only: quantum_bytes_val Let_def v 1 2)
qed

lemma quantum_bytes_one:
  fixes a :: uint8
  assumes val: "val = unat a * 65536"
    and d: "d0 = (val div 262144) mod 64" "d1 = (val div 4096) mod 64"
  shows "quantum_bytes [d0, d1] = [a]"
proof -
  have ub: "unat a < 256" by (rule unat_uint8_less)
  then have lt: "val < 16777216" by (simp add: val)
  have m: "val mod 64 = 0" "(val div 64) mod 64 = 0" by (simp_all add: val)
  have "d0 * 262144 + d1 * 4096 + (val div 64) mod 64 * 64 + val mod 64 = val"
    unfolding d using lt by (rule sextets)
  then have v: "d0 * 262144 + d1 * 4096 = val" by (simp only: m add_0_right mult_zero_left)
  have "val div 65536 = unat a" using ub by (simp add: val)
  then have 1: "(of_nat (val div 65536) :: uint8) = a" by simp
  show ?thesis by (simp only: quantum_bytes_val Let_def v 1)
qed

lemma bytes_simps: "bytes [] = []" "bytes (c # s) = of_char c # bytes s"
  by (simp_all add: bytes_def)

lemma Decode_from_EncodeToString:
  "Decode_from [] (bytes (EncodeToString src)) = Some src"
proof (induction src rule: EncodeToString.induct)
  case 1
  show ?case by (simp add: bytes_simps)
next
  case (2 a)
  define val where "val = unat a * 65536"
  define d0 d1 where "d0 = (val div 262144) mod 64" and "d1 = (val div 4096) mod 64"
  have q: "quantum_bytes [d0, d1] = [a]"
    using val_def d0_def d1_def by (rule quantum_bytes_one)
  have e: "EncodeToString [a] = [enc6 (val div 262144), enc6 (val div 4096), CHR ''='', CHR ''='']"
    by (simp add: val_def Let_def)
  show ?case
    unfolding e
    by (simp add: bytes_simps decodeMap_enc6 decodeMap_pad d0_def [symmetric] d1_def [symmetric] q)
next
  case (3 a b)
  define val where "val = unat a * 65536 + unat b * 256"
  define d0 d1 d2 where "d0 = (val div 262144) mod 64" and "d1 = (val div 4096) mod 64"
    and "d2 = (val div 64) mod 64"
  have q: "quantum_bytes [d0, d1, d2] = [a, b]"
    using val_def d0_def d1_def d2_def by (rule quantum_bytes_two)
  have e: "EncodeToString [a, b] =
      [enc6 (val div 262144), enc6 (val div 4096), enc6 (val div 64), CHR ''='']"
    by (simp add: val_def Let_def)
  show ?case
    unfolding e
    by (simp add: bytes_simps decodeMap_enc6 decodeMap_pad d0_def [symmetric] d1_def [symmetric]
        d2_def [symmetric] q)
next
  case (4 a b c rest)
  define val where "val = unat a * 65536 + unat b * 256 + unat c"
  define d0 d1 d2 d3 where "d0 = (val div 262144) mod 64" and "d1 = (val div 4096) mod 64"
    and "d2 = (val div 64) mod 64" and "d3 = val mod 64"
  have q: "quantum_bytes [d0, d1, d2, d3] = [a, b, c]"
    using val_def d0_def d1_def d2_def d3_def by (rule quantum_bytes_full)
  have e: "EncodeToString (a # b # c # rest) =
      [enc6 (val div 262144), enc6 (val div 4096), enc6 (val div 64), enc6 val]
      @ EncodeToString rest"
    by (simp add: val_def Let_def)
  have "bytes (EncodeToString (a # b # c # rest)) =
      of_char (enc6 (val div 262144)) # of_char (enc6 (val div 4096)) #
      of_char (enc6 (val div 64)) # of_char (enc6 val) # bytes (EncodeToString rest)"
    unfolding e by (simp add: bytes_def)
  then show ?case
    using "4.IH"
    by (simp add: decodeMap_enc6 d0_def [symmetric] d1_def [symmetric]
        d2_def [symmetric] d3_def [symmetric] q)
qed

lemma Decode_EncodeToString: "Decode (bytes (EncodeToString src)) = Some src"
  by (simp add: Decode_def Decode_from_EncodeToString)

lemma length_quantum_bytes: "length (quantum_bytes dbuf) = min (length dbuf - 1) 3"
  by (simp add: quantum_bytes_def Let_def)

lemma length_Decode_from:
  "Decode_from dbuf src = Some out \<Longrightarrow> length dbuf \<le> 3 \<Longrightarrow>
   4 * length out \<le> 3 * (length dbuf + length src)"
proof (induction src arbitrary: dbuf out)
  case Nil
  then show ?case by (simp split: if_splits)
next
  case (Cons c src)
  show ?case
  proof (cases "decodeMap c")
    case (Some v)
    show ?thesis
    proof (cases "length dbuf = 3")
      case True
      with Cons.prems Some obtain rest where r: "Decode_from [] src = Some rest"
        "out = quantum_bytes (dbuf @ [v]) @ rest" by auto
      from Cons.IH [OF r(1)] have "4 * length rest \<le> 3 * length src" by simp
      with r(2) True show ?thesis by (simp add: length_quantum_bytes)
    next
      case False
      with Cons.prems Some have "Decode_from (dbuf @ [v]) src = Some out" by simp
      from Cons.IH [OF this] False Cons.prems(2) show ?thesis by simp
    qed
  next
    case None
    show ?thesis
    proof (cases "is_newline c")
      case True
      with Cons.prems None have "Decode_from dbuf src = Some out" by simp
      from Cons.IH [OF this Cons.prems(2)] show ?thesis by simp
    next
      case False
      with Cons.prems None have "out = quantum_bytes dbuf"
        by (auto split: if_splits list.splits)
      then show ?thesis by (simp add: length_quantum_bytes)
    qed
  qed
qed

lemma length_Decode: "Decode src = Some out \<Longrightarrow> length out \<le> length src"
  using length_Decode_from [of "[]" src out] by (simp add: Decode_def)

lemma Index_from_found:
  "Index_from i s sep = k \<Longrightarrow> k \<noteq> - 1 \<Longrightarrow> 0 \<le> i \<Longrightarrow>
   i \<le> k \<and> nat (k - i) \<le> length s \<and> prefix sep (drop (nat (k - i)) s) \<and>
   (\<forall>j < nat (k - i). \<not> prefix sep (drop j s))"
proof (induction s arbitrary: i)
  case Nil
  then show ?case by (auto split: if_splits)
next
  case (Cons c s)
  show ?case
  proof (cases "prefix sep (c # s)")
    case True
    with Cons.prems show ?thesis by simp
  next
    case False
    with Cons.prems have "Index_from (i + 1) s sep = k" by simp
    from Cons.IH [OF this] Cons.prems have ih: "i + 1 \<le> k" "nat (k - (i + 1)) \<le> length s"
      "prefix sep (drop (nat (k - (i + 1))) s)"
      "\<forall>j < nat (k - (i + 1)). \<not> prefix sep (drop j s)" by auto
    from ih(1) have n: "nat (k - i) = Suc (nat (k - (i + 1)))" by simp
    have "\<not> prefix sep (drop j (c # s))" if "j < nat (k - i)" for j
      using that False ih(4) n by (cases j) auto
    with ih n show ?thesis by simp
  qed
qed

lemma Index_from_absent:
  "Index_from i s sep = - 1 \<Longrightarrow> 0 \<le> i \<Longrightarrow> \<forall>j \<le> length s. \<not> prefix sep (drop j s)"
proof (induction s arbitrary: i)
  case Nil
  then show ?case by (auto split: if_splits)
next
  case (Cons c s)
  from Cons.prems have np: "\<not> prefix sep (c # s)" by (auto split: if_splits)
  with Cons.prems have "Index_from (i + 1) s sep = - 1" by simp
  from Cons.IH [OF this] Cons.prems have ih: "\<forall>j \<le> length s. \<not> prefix sep (drop j s)" by simp
  show ?case
  proof (intro allI impI)
    fix j assume "j \<le> length (c # s)"
    then show "\<not> prefix sep (drop j (c # s))" using np ih by (cases j) auto
  qed
qed

text \<open>
  The library's \<^verbatim>\<open>Decode\<close> against standard decoding. The scan of one quantum reads what
  \<open>Decode_from\<close> reads; a store lands below the bytes still to be read, because four
  characters are read for every three bytes stored; and a fast path decodes one or two
  whole quanta.
\<close>

lemma drop_skip_newlines:
  "drop (skip_newlines src si) src = dropWhile is_newline (drop si src)"
  by (simp add: skip_newlines_def dropWhile_eq_drop add.commute)

lemma skip_newlines_bounds:
  assumes "si \<le> length src"
  shows "si \<le> skip_newlines src si" and "skip_newlines src si \<le> length src"
proof -
  show "si \<le> skip_newlines src si" by (simp add: skip_newlines_def)
  have "length (takeWhile is_newline (drop si src)) \<le> length (drop si src)"
    by (rule length_takeWhile_le)
  with assms show "skip_newlines src si \<le> length src" by (simp add: skip_newlines_def)
qed

lemma skip_newlines_end:
  assumes "si \<le> length src"
  shows "skip_newlines src si = length src \<longleftrightarrow> dropWhile is_newline (drop si src) = []"
proof -
  have "dropWhile is_newline (drop si src) = [] \<longleftrightarrow> length src \<le> skip_newlines src si"
    by (simp add: drop_skip_newlines [symmetric])
  with skip_newlines_bounds(2) [OF assms] show ?thesis by auto
qed

lemma skip_newlines_nth:
  assumes "skip_newlines src si < length src"
  shows "dropWhile is_newline (drop si src)
     = src ! skip_newlines src si # drop (skip_newlines src si + 1) src"
  using assms by (simp add: drop_skip_newlines [symmetric] Cons_nth_drop_Suc)

lemma quantum_loop_Decode_from:
  assumes "si \<le> length src" and "length dbuf \<le> 3"
  shows "case quantum_loop src si dbuf of
           None \<Rightarrow> Decode_from dbuf (drop si src) = None
         | Some (nsi, d, t) \<Rightarrow>
             nsi \<le> length src \<and>
             (if d = [] then dbuf = [] \<and> nsi = length src \<and> Decode_from dbuf (drop si src) = Some []
              else if length d = 4 then
                si + 4 \<le> nsi + length dbuf \<and> \<not> t \<and>
                Decode_from dbuf (drop si src)
                  = map_option (\<lambda>rest. quantum_bytes d @ rest) (Decode_from [] (drop nsi src))
              else
                2 \<le> length d \<and> length d \<le> 3 \<and> si + 4 \<le> nsi + length dbuf \<and>
                (if t then Decode_from dbuf (drop si src) = None
                 else nsi = length src \<and> Decode_from dbuf (drop si src) = Some (quantum_bytes d)))"
  using assms
proof (induction src si dbuf rule: quantum_loop.induct)
  case (1 src si dbuf)
  show ?case
  proof (cases "length src \<le> si")
    case True
    with "1.prems" show ?thesis by (subst quantum_loop.simps) auto
  next
    case False
    then have ds: "drop si src = src ! si # drop (si + 1) src" by (simp add: Cons_nth_drop_Suc)
    from "1.prems" have n4: "length dbuf \<noteq> 4" by simp
    from False have s1: "si + 1 \<le> length src" by simp
    show ?thesis
    proof (cases "decodeMap (src ! si)")
      case (Some v)
      show ?thesis
      proof (cases "length dbuf = 3")
        case True
        have "quantum_loop src (si + 1) (dbuf @ [v]) = Some (si + 1, dbuf @ [v], False)"
          using True by (subst quantum_loop.simps) simp
        then have "quantum_loop src si dbuf = Some (si + 1, dbuf @ [v], False)"
          using False Some True by (subst quantum_loop.simps) (simp add: Let_def)
        then show ?thesis using True False Some ds by simp
      next
        case f3: False
        with "1.prems" have l: "length (dbuf @ [v]) \<le> 3" by simp
        have q: "quantum_loop src si dbuf = quantum_loop src (si + 1) (dbuf @ [v])"
          using False n4 Some by (subst quantum_loop.simps) (simp add: Let_def)
        have df: "Decode_from dbuf (drop si src) = Decode_from (dbuf @ [v]) (drop (si + 1) src)"
          using ds Some f3 by simp
        from "1.IH"(2) [OF n4 False refl refl Some s1 l] show ?thesis
          unfolding q df by (auto split: option.splits prod.splits if_splits)
      qed
    next
      case None
      show ?thesis
      proof (cases "is_newline (src ! si)")
        case True
        have q: "quantum_loop src si dbuf = quantum_loop src (si + 1) dbuf"
          using False n4 None True by (subst quantum_loop.simps) (simp add: Let_def)
        have df: "Decode_from dbuf (drop si src) = Decode_from dbuf (drop (si + 1) src)"
          using ds None True by simp
        from "1.IH"(1) [OF n4 False refl refl None True s1 "1.prems"(2)] show ?thesis
          unfolding q df by (auto split: option.splits prod.splits if_splits)
      next
        case nl: False
        show ?thesis
        proof (cases "src ! si = 61 \<and> 2 \<le> length dbuf")
          case False
          then have "quantum_loop src si dbuf = None"
            using \<open>\<not> length src \<le> si\<close> n4 None nl by (subst quantum_loop.simps) (auto simp add: Let_def)
          moreover have "Decode_from dbuf (drop si src) = None"
            using False ds None nl by auto
          ultimately show ?thesis by simp
        next
          case pad: True
          show ?thesis
          proof (cases "length dbuf = 2")
            case two: True
            let ?si2 = "skip_newlines src (si + 1)"
            have b2: "si + 1 \<le> ?si2" "?si2 \<le> length src"
              using skip_newlines_bounds [OF s1] by simp_all
            show ?thesis
            proof (cases "?si2 = length src")
              case True
              then have "quantum_loop src si dbuf = None"
                using \<open>\<not> length src \<le> si\<close> n4 None nl pad two
                by (subst quantum_loop.simps) (simp add: Let_def)
              moreover have dw0: "dropWhile is_newline (drop (Suc si) src) = []"
                using True skip_newlines_end [OF s1] by simp
              have "Decode_from dbuf (drop si src) = None"
                using ds None nl pad two by (simp add: dw0 del: dropWhile_eq_Nil_conv)
              ultimately show ?thesis by simp
            next
              case ne: False
              with b2 have lt: "?si2 < length src" by simp
              note dw = skip_newlines_nth [OF lt]
              show ?thesis
              proof (cases "src ! ?si2 = 61")
                case False
                then have "quantum_loop src si dbuf = None"
                  using \<open>\<not> length src \<le> si\<close> n4 None nl pad two ne
                  by (subst quantum_loop.simps) (simp add: Let_def)
                moreover have "Decode_from dbuf (drop si src) = None"
                  using ds None nl pad two dw False by simp
                ultimately show ?thesis by simp
              next
                case eq: True
                let ?si3 = "skip_newlines src (?si2 + 1)"
                from lt have s2: "?si2 + 1 \<le> length src" by simp
                have b3: "?si2 + 1 \<le> ?si3" "?si3 \<le> length src"
                  using skip_newlines_bounds [OF s2] by simp_all
                have q: "quantum_loop src si dbuf = Some (?si3, dbuf, ?si3 < length src)"
                  using \<open>\<not> length src \<le> si\<close> n4 None nl pad two ne eq
                  by (subst quantum_loop.simps) (simp add: Let_def)
                have e: "?si3 = length src \<longleftrightarrow> dropWhile is_newline (drop (?si2 + 1) src) = []"
                  by (rule skip_newlines_end [OF s2])
                have df: "Decode_from dbuf (drop si src)
                    = (if ?si3 = length src then Some (quantum_bytes dbuf) else None)"
                  using ds None nl pad two dw eq e by simp
                show ?thesis unfolding q df using two b2 b3 by auto
              qed
            qed
          next
            case False
            with pad "1.prems" have three: "length dbuf = 3" by simp
            let ?si3 = "skip_newlines src (si + 1)"
            have b3: "si + 1 \<le> ?si3" "?si3 \<le> length src"
              using skip_newlines_bounds [OF s1] by simp_all
            have q: "quantum_loop src si dbuf = Some (?si3, dbuf, ?si3 < length src)"
              using \<open>\<not> length src \<le> si\<close> n4 None nl pad three
              by (subst quantum_loop.simps) (simp add: Let_def)
            have e: "?si3 = length src \<longleftrightarrow> dropWhile is_newline (drop (si + 1) src) = []"
              by (rule skip_newlines_end [OF s1])
            have df: "Decode_from dbuf (drop si src)
                = (if ?si3 = length src then Some (quantum_bytes dbuf) else None)"
              using ds None nl pad three e by simp
            show ?thesis unfolding q df using three b3 by auto
          qed
        qed
      qed
    qed
  qed
qed

lemma length_put_bytes:
  "n + length bs \<le> length mem \<Longrightarrow> length (put_bytes n bs mem) = length mem"
  by (simp add: put_bytes_def)

lemma take_put_bytes:
  "n + length bs \<le> length mem \<Longrightarrow> take (n + length bs) (put_bytes n bs mem) = take n mem @ bs"
  by (simp add: put_bytes_def)

lemma take_put_bytes_less:
  "n + length bs \<le> length mem \<Longrightarrow> k \<le> length bs \<Longrightarrow>
   take (n + k) (put_bytes n bs mem) = take n mem @ take k bs"
  by (simp add: put_bytes_def)

lemma drop_put_bytes:
  "n + length bs \<le> k \<Longrightarrow> k \<le> length mem \<Longrightarrow> drop k (put_bytes n bs mem) = drop k mem"
  by (simp add: put_bytes_def)

lemma decodeQuantum_step:
  assumes so: "so \<le> length mem" and si: "si \<le> length mem - so" and n: "4 * n \<le> 3 * si"
  shows "case decodeQuantum mem so si n of
           Inl e \<Rightarrow> e = CorruptInputError \<and> Decode_from [] (drop (so + si) mem) = None
         | Inr (mem', nsi, ninc) \<Rightarrow>
             nsi \<le> length mem - so \<and> 4 * (n + ninc) \<le> 3 * nsi \<and>
             length mem' = length mem \<and>
             drop (so + nsi) mem' = drop (so + nsi) mem \<and>
             (\<exists>w. length w = ninc \<and> take (n + ninc) mem' = take n mem @ w \<and>
                  Decode_from [] (drop (so + si) mem)
                    = map_option (\<lambda>rest. w @ rest) (Decode_from [] (drop (so + nsi) mem)))"
proof -
  let ?src = "drop so mem"
  have ls: "length ?src = length mem - so" by simp
  have dd: "drop k ?src = drop (so + k) mem" for k by (simp add: add.commute)
  from si n so have nm: "\<not> length mem < n" by linarith
  from si have si': "si \<le> length ?src" by simp
  note q = quantum_loop_Decode_from [OF si', of "[]", simplified dd ls]
  show ?thesis
  proof (cases "quantum_loop ?src si []")
    case None
    with q nm show ?thesis by (simp add: decodeQuantum_def)
  next
    case (Some r)
    obtain nsi d t where r: "r = (nsi, d, t)" by (cases r)
    from q Some r have b: "nsi \<le> length mem - so" by simp
    show ?thesis
    proof (cases "d = []")
      case True
      with q Some r have e: "nsi = length mem - so" "Decode_from [] (drop (so + si) mem) = Some []"
        by simp_all
      from e(1) so have "drop (so + nsi) mem = []" by simp
      with True Some r nm e n si show ?thesis by (simp add: decodeQuantum_def)
    next
      case ne: False
      show ?thesis
      proof (cases "length d = 4")
        case True
        with q Some r ne have f: "si + 4 \<le> nsi" "\<not> t"
          "Decode_from [] (drop (so + si) mem)
             = map_option (\<lambda>rest. quantum_bytes d @ rest) (Decode_from [] (drop (so + nsi) mem))"
          by simp_all
        have lq: "length (quantum_bytes d) = 3" using True by (simp add: length_quantum_bytes)
        from f(1) n have n3: "4 * (n + 3) \<le> 3 * nsi" by simp
        then have "n + 3 \<le> nsi" by simp
        with b so have w: "n + length (quantum_bytes d) \<le> length mem"
          "n + length (quantum_bytes d) \<le> so + nsi" "so + nsi \<le> length mem"
          unfolding lq by linarith+
        have dq: "decodeQuantum mem so si n = Inr (put_bytes n (quantum_bytes d) mem, nsi, 3)"
          using Some r ne True f(2) nm w(1) lq by (simp add: decodeQuantum_def)
        from take_put_bytes [OF w(1)]
        have "take (n + 3) (put_bytes n (quantum_bytes d) mem) = take n mem @ quantum_bytes d"
          by (simp add: lq)
        with lq f(3) have ex: "\<exists>w. length w = 3 \<and>
            take (n + 3) (put_bytes n (quantum_bytes d) mem) = take n mem @ w \<and>
            Decode_from [] (drop (so + si) mem)
              = map_option (\<lambda>rest. w @ rest) (Decode_from [] (drop (so + nsi) mem))"
          by blast
        from b n3 length_put_bytes [OF w(1)] drop_put_bytes [OF w(2,3)] ex
        show ?thesis unfolding dq by simp
      next
        case False
        with q Some r ne have g: "2 \<le> length d \<and> length d \<le> 3 \<and> si + 4 \<le> nsi \<and>
            (if t then Decode_from [] (drop (so + si) mem) = None
             else nsi = length mem - so \<and>
               Decode_from [] (drop (so + si) mem) = Some (quantum_bytes d))"
          by simp
        then have f: "2 \<le> length d" "length d \<le> 3" "si + 4 \<le> nsi" by simp_all
        from g have f4: "Decode_from [] (drop (so + si) mem) = None" if t
          using that by simp
        from g have f5: "nsi = length mem - so \<and>
            Decode_from [] (drop (so + si) mem) = Some (quantum_bytes d)" if "\<not> t"
          using that by simp
        have lq: "length (quantum_bytes d) = length d - 1"
          using f(1,2) by (simp add: length_quantum_bytes)
        from f(1,2) have "length d - 1 \<le> 3" by simp
        with f(3) n have n3: "4 * (n + (length d - 1)) \<le> 3 * nsi" by simp
        then have "n + (length d - 1) \<le> nsi" by simp
        with b so have w: "n + length (quantum_bytes d) \<le> length mem"
          "n + length (quantum_bytes d) \<le> so + nsi" "so + nsi \<le> length mem"
          unfolding lq by linarith+
        show ?thesis
        proof (cases t)
          case True
          then have "decodeQuantum mem so si n = Inl CorruptInputError"
            using Some r ne nm w(1) lq by (simp add: decodeQuantum_def)
          with f4 [OF True] show ?thesis by simp
        next
          case nt: False
          then have dq: "decodeQuantum mem so si n
              = Inr (put_bytes n (quantum_bytes d) mem, nsi, length d - 1)"
            using Some r ne nm w(1) lq by (simp add: decodeQuantum_def)
          from f5 [OF nt] so have e: "drop (so + nsi) mem = []"
            "Decode_from [] (drop (so + si) mem) = Some (quantum_bytes d)" by simp_all
          from take_put_bytes [OF w(1)]
          have "take (n + (length d - 1)) (put_bytes n (quantum_bytes d) mem)
              = take n mem @ quantum_bytes d"
            by (simp add: lq)
          with lq e have ex: "\<exists>w. length w = length d - 1 \<and>
              take (n + (length d - 1)) (put_bytes n (quantum_bytes d) mem) = take n mem @ w \<and>
              Decode_from [] (drop (so + si) mem)
                = map_option (\<lambda>rest. w @ rest) (Decode_from [] (drop (so + nsi) mem))"
            by simp
          from b n3 length_put_bytes [OF w(1)] drop_put_bytes [OF w(2,3)] ex
          show ?thesis unfolding dq by simp
        qed
      qed
    qed
  qed
qed

lemma those_append:
  "those (xs @ ys) =
     (case those xs of
        None \<Rightarrow> None
      | Some a \<Rightarrow> (case those ys of None \<Rightarrow> None | Some b \<Rightarrow> Some (a @ b)))"
  by (induction xs) (auto split: option.splits)

lemma length_those: "those xs = Some ys \<Longrightarrow> length ys = length xs"
proof (induction xs arbitrary: ys)
  case Nil
  then show ?case by simp
next
  case (Cons x xs)
  then show ?case by (auto split: option.splits)
qed

lemma Decode_from_quad:
  assumes "those (map decodeMap cs) = Some ns" and "length cs = 4"
  shows "Decode_from [] (cs @ rest)
     = map_option (\<lambda>r. quantum_bytes ns @ r) (Decode_from [] rest)"
proof -
  from assms(2) obtain c1 r1 where 1: "cs = c1 # r1" "length r1 = 3" by (cases cs) auto
  then obtain c2 r2 where 2: "r1 = c2 # r2" "length r2 = 2" by (cases r1) auto
  then obtain c3 r3 where 3: "r2 = c3 # r3" "length r3 = 1" by (cases r2) auto
  then obtain c4 where 4: "r3 = [c4]" by (cases r3) auto
  from 1 2 3 4 have cs: "cs = [c1, c2, c3, c4]" by simp
  from assms(1) obtain v1 v2 v3 v4 where v: "decodeMap c1 = Some v1" "decodeMap c2 = Some v2"
    "decodeMap c3 = Some v3" "decodeMap c4 = Some v4" "ns = [v1, v2, v3, v4]"
    unfolding cs by (auto split: option.splits)
  show ?thesis unfolding cs by (simp add: v)
qed

lemma assemble32_Decode_from:
  assumes "assemble32 (take 4 (drop k mem)) = Some dn" and "k + 4 \<le> length mem"
  shows "\<exists>w. dn = w @ [0] \<and> length w = 3 \<and>
           Decode_from [] (drop k mem)
             = map_option (\<lambda>r. w @ r) (Decode_from [] (drop (k + 4) mem))"
proof -
  from assms(1) obtain ns where ns: "those (map decodeMap (take 4 (drop k mem))) = Some ns"
    and dn: "dn = quantum_bytes ns @ [0]"
    by (auto simp add: assemble32_def split: option.splits)
  have l: "length (take 4 (drop k mem)) = 4" using assms(2) by simp
  have sp: "drop k mem = take 4 (drop k mem) @ drop (k + 4) mem"
    using append_take_drop_id [of 4 "drop k mem"] by (simp add: add.commute)
  from length_those [OF ns] l have "length ns = 4" by simp
  then have "length (quantum_bytes ns) = 3" by (simp add: length_quantum_bytes)
  moreover have "Decode_from [] (drop k mem)
      = map_option (\<lambda>r. quantum_bytes ns @ r) (Decode_from [] (drop (k + 4) mem))"
    by (subst sp) (rule Decode_from_quad [OF ns l])
  ultimately show ?thesis using dn by blast
qed

lemma assemble64_Decode_from:
  assumes "assemble64 (take 8 (drop k mem)) = Some dn" and "k + 8 \<le> length mem"
  shows "\<exists>w. dn = w @ [0, 0] \<and> length w = 6 \<and>
           Decode_from [] (drop k mem)
             = map_option (\<lambda>r. w @ r) (Decode_from [] (drop (k + 8) mem))"
proof -
  let ?a = "take 4 (drop k mem)" and ?b = "take 4 (drop (k + 4) mem)"
  from assms(1) obtain ns where ns: "those (map decodeMap (take 8 (drop k mem))) = Some ns"
    and dn: "dn = quantum_bytes (take 4 ns) @ quantum_bytes (drop 4 ns) @ [0, 0]"
    by (auto simp add: assemble64_def split: option.splits)
  have t8: "take 8 (drop k mem) = ?a @ ?b"
    using take_add [of 4 4 "drop k mem"] by (simp add: add.commute)
  have l: "length ?a = 4" "length ?b = 4" using assms(2) by simp_all
  from ns obtain n1 n2 where n1: "those (map decodeMap ?a) = Some n1"
    and n2: "those (map decodeMap ?b) = Some n2" and n12: "ns = n1 @ n2"
    unfolding t8 by (auto simp add: those_append split: option.splits)
  from length_those [OF n1] length_those [OF n2] l have ln: "length n1 = 4" "length n2 = 4"
    by simp_all
  with n12 have tn: "take 4 ns = n1" "drop 4 ns = n2" by simp_all
  have sp: "drop k mem = ?a @ drop (k + 4) mem" "drop (k + 4) mem = ?b @ drop (k + 8) mem"
    using append_take_drop_id [of 4 "drop k mem"] append_take_drop_id [of 4 "drop (k + 4) mem"]
    by (simp_all add: add.commute)
  have "Decode_from [] (drop k mem)
      = map_option (\<lambda>r. quantum_bytes n1 @ r) (Decode_from [] (drop (k + 4) mem))"
    by (subst sp(1)) (rule Decode_from_quad [OF n1 l(1)])
  also have "Decode_from [] (drop (k + 4) mem)
      = map_option (\<lambda>r. quantum_bytes n2 @ r) (Decode_from [] (drop (k + 8) mem))"
    by (subst sp(2)) (rule Decode_from_quad [OF n2 l(2)])
  finally have "Decode_from [] (drop k mem)
      = map_option (\<lambda>r. (quantum_bytes n1 @ quantum_bytes n2) @ r)
          (Decode_from [] (drop (k + 8) mem))"
    by (simp add: option.map_comp comp_def)
  moreover have "length (quantum_bytes n1 @ quantum_bytes n2) = 6"
    using ln by (simp add: length_quantum_bytes)
  ultimately show ?thesis using dn tn by (intro exI [of _ "quantum_bytes n1 @ quantum_bytes n2"]) simp
qed

lemma refine_step:
  assumes D: "Decode_from [] (drop (so + si) mem)
      = map_option (\<lambda>r. w @ r) (Decode_from [] (drop (so + nsi) mem'))"
    and T: "take (n + length w) mem' = take n mem @ w"
    and L: "length mem' = length mem"
    and IH: "case Decode_from [] (drop (so + nsi) mem') of
        None \<Rightarrow> res = Inl CorruptInputError
      | Some rest \<Rightarrow>
          \<exists>buf. res = Inr (buf, (n + length w) + length rest) \<and> length buf = length mem' \<and>
            take ((n + length w) + length rest) buf = take (n + length w) mem' @ rest"
  shows "case Decode_from [] (drop (so + si) mem) of
        None \<Rightarrow> res = Inl CorruptInputError
      | Some rest \<Rightarrow>
          \<exists>buf. res = Inr (buf, n + length rest) \<and> length buf = length mem \<and>
            take (n + length rest) buf = take n mem @ rest"
proof (cases "Decode_from [] (drop (so + nsi) mem')")
  case None
  with IH D show ?thesis by simp
next
  case (Some rest)
  with IH obtain buf where b: "res = Inr (buf, (n + length w) + length rest)"
    "length buf = length mem'"
    "take ((n + length w) + length rest) buf = take (n + length w) mem' @ rest" by auto
  from D Some have "Decode_from [] (drop (so + si) mem) = Some (w @ rest)" by simp
  moreover from b T L have "res = Inr (buf, n + length (w @ rest))" "length buf = length mem"
    "take (n + length (w @ rest)) buf = take n mem @ (w @ rest)"
    by (simp_all add: add.assoc)
  ultimately show ?thesis by (simp del: length_append append_assoc)
qed

lemma quantum_path:
  assumes so: "so \<le> length mem" and si: "si \<le> length mem - so" and n: "4 * n \<le> 3 * si"
    and IH: "\<And>mem' nsi ninc. decodeQuantum mem so si n = Inr (mem', nsi, ninc) \<Longrightarrow>
        so \<le> length mem' \<Longrightarrow> nsi \<le> length mem' - so \<Longrightarrow> 4 * (n + ninc) \<le> 3 * nsi \<Longrightarrow>
        (case Decode_from [] (drop (so + nsi) mem') of
           None \<Rightarrow> loop mem' so nsi (n + ninc) = Inl CorruptInputError
         | Some rest \<Rightarrow>
             \<exists>buf. loop mem' so nsi (n + ninc) = Inr (buf, (n + ninc) + length rest) \<and>
               length buf = length mem' \<and>
               take ((n + ninc) + length rest) buf = take (n + ninc) mem' @ rest)"
  shows "case Decode_from [] (drop (so + si) mem) of
        None \<Rightarrow> (case decodeQuantum mem so si n of
                    Inl err \<Rightarrow> Inl err
                  | Inr (mem', nsi, ninc) \<Rightarrow> loop mem' so nsi (n + ninc)) = Inl CorruptInputError
      | Some rest \<Rightarrow>
          \<exists>buf. (case decodeQuantum mem so si n of
                    Inl err \<Rightarrow> Inl err
                  | Inr (mem', nsi, ninc) \<Rightarrow> loop mem' so nsi (n + ninc))
                 = Inr (buf, n + length rest) \<and> length buf = length mem \<and>
            take (n + length rest) buf = take n mem @ rest"
proof (cases "decodeQuantum mem so si n")
  case (Inl e)
  with decodeQuantum_step [OF so si n] have "e = CorruptInputError"
    "Decode_from [] (drop (so + si) mem) = None" by simp_all
  then show ?thesis unfolding Inl by simp
next
  case (Inr x)
  obtain mem' nsi ninc where x: "x = (mem', nsi, ninc)" by (cases x)
  from decodeQuantum_step [OF so si n] Inr x obtain w where
    f: "nsi \<le> length mem - so" "4 * (n + ninc) \<le> 3 * nsi" "length mem' = length mem"
      "drop (so + nsi) mem' = drop (so + nsi) mem" "length w = ninc"
      "take (n + ninc) mem' = take n mem @ w"
      "Decode_from [] (drop (so + si) mem)
         = map_option (\<lambda>rest. w @ rest) (Decode_from [] (drop (so + nsi) mem))"
    by auto
  from Inr x have dq: "decodeQuantum mem so si n = Inr (mem', nsi, ninc)" by simp
  from IH [OF dq] so f(1,2,3)
  have ih: "case Decode_from [] (drop (so + nsi) mem') of
           None \<Rightarrow> loop mem' so nsi (n + ninc) = Inl CorruptInputError
         | Some rest \<Rightarrow>
             \<exists>buf. loop mem' so nsi (n + ninc) = Inr (buf, (n + ninc) + length rest) \<and>
               length buf = length mem' \<and>
               take ((n + ninc) + length rest) buf = take (n + ninc) mem' @ rest"
    by simp
  have "case Decode_from [] (drop (so + si) mem) of
        None \<Rightarrow> loop mem' so nsi (n + ninc) = Inl CorruptInputError
      | Some rest \<Rightarrow>
          \<exists>buf. loop mem' so nsi (n + ninc) = Inr (buf, n + length rest) \<and> length buf = length mem \<and>
            take (n + length rest) buf = take n mem @ rest"
  proof (rule refine_step [where w = w and nsi = nsi and mem' = mem'])
    show "Decode_from [] (drop (so + si) mem)
        = map_option (\<lambda>r. w @ r) (Decode_from [] (drop (so + nsi) mem'))"
      using f(7) f(4) by simp
    show "take (n + length w) mem' = take n mem @ w" using f(5,6) by simp
    show "length mem' = length mem" by (rule f(3))
    show "case Decode_from [] (drop (so + nsi) mem') of
        None \<Rightarrow> loop mem' so nsi (n + ninc) = Inl CorruptInputError
      | Some rest \<Rightarrow>
          \<exists>buf. loop mem' so nsi (n + ninc) = Inr (buf, (n + length w) + length rest) \<and>
            length buf = length mem' \<and>
            take ((n + length w) + length rest) buf = take (n + length w) mem' @ rest"
      unfolding f(5) by (rule ih)
  qed
  then show ?thesis unfolding dq sum.case prod.case .
qed

lemma fast_path:
  assumes so: "so \<le> length mem" and n: "4 * n \<le> 3 * si"
    and room: "so + si + length dn \<le> length mem" "n + length dn \<le> length mem"
    and dn: "take k dn = w" "length w = k" "k \<le> length dn"
    and D: "Decode_from [] (drop (so + si) mem)
        = map_option (\<lambda>r. w @ r) (Decode_from [] (drop (so + si + length dn) mem))"
    and IH: "case Decode_from [] (drop (so + (si + length dn)) (put_bytes n dn mem)) of
           None \<Rightarrow> res = Inl CorruptInputError
         | Some rest \<Rightarrow>
             \<exists>buf. res = Inr (buf, (n + k) + length rest) \<and>
               length buf = length (put_bytes n dn mem) \<and>
               take ((n + k) + length rest) buf = take (n + k) (put_bytes n dn mem) @ rest"
  shows "case Decode_from [] (drop (so + si) mem) of
        None \<Rightarrow> res = Inl CorruptInputError
      | Some rest \<Rightarrow>
          \<exists>buf. res = Inr (buf, n + length rest) \<and> length buf = length mem \<and>
            take (n + length rest) buf = take n mem @ rest"
proof (rule refine_step [where w = w and nsi = "si + length dn" and mem' = "put_bytes n dn mem"])
  from n have "n \<le> si" by simp
  then have "n + length dn \<le> so + (si + length dn)" by simp
  moreover from room(1) have "so + (si + length dn) \<le> length mem" by simp
  ultimately have "drop (so + (si + length dn)) (put_bytes n dn mem)
      = drop (so + (si + length dn)) mem"
    by (rule drop_put_bytes)
  with D show "Decode_from [] (drop (so + si) mem)
      = map_option (\<lambda>r. w @ r) (Decode_from [] (drop (so + (si + length dn)) (put_bytes n dn mem)))"
    by (simp add: add.assoc)
  show "take (n + length w) (put_bytes n dn mem) = take n mem @ w"
    using take_put_bytes_less [OF room(2) dn(3)] dn(1,2) by simp
  show "length (put_bytes n dn mem) = length mem" using room(2) by (rule length_put_bytes)
  show "case Decode_from [] (drop (so + (si + length dn)) (put_bytes n dn mem)) of
        None \<Rightarrow> res = Inl CorruptInputError
      | Some rest \<Rightarrow>
          \<exists>buf. res = Inr (buf, (n + length w) + length rest) \<and>
            length buf = length (put_bytes n dn mem) \<and>
            take ((n + length w) + length rest) buf = take (n + length w) (put_bytes n dn mem) @ rest"
    unfolding dn(2) by (rule IH)
qed

lemma loops_refine:
  shows "so \<le> length mem \<Longrightarrow> si \<le> length mem - so \<Longrightarrow> 4 * n \<le> 3 * si \<Longrightarrow>
      (case Decode_from [] (drop (so + si) mem) of
         None \<Rightarrow> loop64 mem so si n = Inl CorruptInputError
       | Some rest \<Rightarrow>
           \<exists>buf. loop64 mem so si n = Inr (buf, n + length rest) \<and> length buf = length mem \<and>
             take (n + length rest) buf = take n mem @ rest)"
    and "so \<le> length mem \<Longrightarrow> si \<le> length mem - so \<Longrightarrow> 4 * n \<le> 3 * si \<Longrightarrow>
      (case Decode_from [] (drop (so + si) mem) of
         None \<Rightarrow> loop32 mem so si n = Inl CorruptInputError
       | Some rest \<Rightarrow>
           \<exists>buf. loop32 mem so si n = Inr (buf, n + length rest) \<and> length buf = length mem \<and>
             take (n + length rest) buf = take n mem @ rest)"
    and "so \<le> length mem \<Longrightarrow> si \<le> length mem - so \<Longrightarrow> 4 * n \<le> 3 * si \<Longrightarrow>
      (case Decode_from [] (drop (so + si) mem) of
         None \<Rightarrow> loop_rest mem so si n = Inl CorruptInputError
       | Some rest \<Rightarrow>
           \<exists>buf. loop_rest mem so si n = Inr (buf, n + length rest) \<and> length buf = length mem \<and>
             take (n + length rest) buf = take n mem @ rest)"
proof (induction mem so si n and mem so si n and mem so si n rule: loop64_loop32_loop_rest.induct)
  case (1 mem so si n)
  note so = "1.prems"(1) and si = "1.prems"(2) and n = "1.prems"(3)
  show ?case
  proof (cases "8 \<le> length mem - so - si \<and> 8 \<le> length mem - n")
    case False
    then have e: "loop64 mem so si n = loop32 mem so si n"
      by (subst loop64.simps) (simp only: if_False)
    show ?thesis unfolding e by (rule "1.IH"(3) [OF False so si n])
  next
    case True
    have dd: "drop si (drop so mem) = drop (so + si) mem" by (simp add: add.commute)
    show ?thesis
    proof (cases "assemble64 (take 8 (drop si (drop so mem)))")
      case None
      have e: "loop64 mem so si n =
          (case decodeQuantum mem so si n of
             Inl err \<Rightarrow> Inl err
           | Inr (mem', nsi, ninc) \<Rightarrow> loop64 mem' so nsi (n + ninc))"
        using True None by (subst loop64.simps) simp
      show ?thesis unfolding e
      proof (rule quantum_path [OF so si n])
        fix mem' nsi ninc
        assume "decodeQuantum mem so si n = Inr (mem', nsi, ninc)" "so \<le> length mem'"
          "nsi \<le> length mem' - so" "4 * (n + ninc) \<le> 3 * nsi"
        then show "case Decode_from [] (drop (so + nsi) mem') of
           None \<Rightarrow> loop64 mem' so nsi (n + ninc) = Inl CorruptInputError
         | Some rest \<Rightarrow>
             \<exists>buf. loop64 mem' so nsi (n + ninc) = Inr (buf, (n + ninc) + length rest) \<and>
               length buf = length mem' \<and>
               take ((n + ninc) + length rest) buf = take (n + ninc) mem' @ rest"
          by (intro "1.IH"(1) [OF True None _ refl refl]) simp_all
      qed
    next
      case (Some dn)
      from True so have room: "(so + si) + 8 \<le> length mem" "n + 8 \<le> length mem" by linarith+
      from assemble64_Decode_from [OF Some [unfolded dd] room(1)] obtain w where
        w: "dn = w @ [0, 0]" "length w = 6"
          "Decode_from [] (drop (so + si) mem)
             = map_option (\<lambda>r. w @ r) (Decode_from [] (drop (so + si + 8) mem))" by blast
      then have l: "length dn = 8" by simp
      have e: "loop64 mem so si n = loop64 (put_bytes n dn mem) so (si + 8) (n + 6)"
        using True Some by (subst loop64.simps) simp
      have lp: "length (put_bytes n dn mem) = length mem"
        using room(2) l by (simp add: length_put_bytes)
      from n have n': "4 * (n + 6) \<le> 3 * (si + 8)" by simp
      from room(1) so have si': "si + 8 \<le> length (put_bytes n dn mem) - so"
        unfolding lp by linarith
      from so have so': "so \<le> length (put_bytes n dn mem)" unfolding lp .
      note ih = "1.IH"(2) [OF True Some so' si' n']
      show ?thesis unfolding e
      proof (rule fast_path [OF so n, where dn = dn and w = w and k = 6])
        show "so + si + length dn \<le> length mem" "n + length dn \<le> length mem"
          using room l by simp_all
        show "take 6 dn = w" "length w = 6" "6 \<le> length dn" using w(1,2) by simp_all
        show "Decode_from [] (drop (so + si) mem)
            = map_option (\<lambda>r. w @ r) (Decode_from [] (drop (so + si + length dn) mem))"
          using w(3) l by simp
        show "case Decode_from [] (drop (so + (si + length dn)) (put_bytes n dn mem)) of
           None \<Rightarrow> loop64 (put_bytes n dn mem) so (si + 8) (n + 6) = Inl CorruptInputError
         | Some rest \<Rightarrow>
             \<exists>buf. loop64 (put_bytes n dn mem) so (si + 8) (n + 6) = Inr (buf, (n + 6) + length rest) \<and>
               length buf = length (put_bytes n dn mem) \<and>
               take ((n + 6) + length rest) buf = take (n + 6) (put_bytes n dn mem) @ rest"
          using ih l by simp
      qed
    qed
  qed
next
  case (2 mem so si n)
  note so = "2.prems"(1) and si = "2.prems"(2) and n = "2.prems"(3)
  show ?case
  proof (cases "4 \<le> length mem - so - si \<and> 4 \<le> length mem - n")
    case False
    then have e: "loop32 mem so si n = loop_rest mem so si n"
      by (subst loop32.simps) (simp only: if_False)
    show ?thesis unfolding e by (rule "2.IH"(3) [OF False so si n])
  next
    case True
    have dd: "drop si (drop so mem) = drop (so + si) mem" by (simp add: add.commute)
    show ?thesis
    proof (cases "assemble32 (take 4 (drop si (drop so mem)))")
      case None
      have e: "loop32 mem so si n =
          (case decodeQuantum mem so si n of
             Inl err \<Rightarrow> Inl err
           | Inr (mem', nsi, ninc) \<Rightarrow> loop32 mem' so nsi (n + ninc))"
        using True None by (subst loop32.simps) simp
      show ?thesis unfolding e
      proof (rule quantum_path [OF so si n])
        fix mem' nsi ninc
        assume "decodeQuantum mem so si n = Inr (mem', nsi, ninc)" "so \<le> length mem'"
          "nsi \<le> length mem' - so" "4 * (n + ninc) \<le> 3 * nsi"
        then show "case Decode_from [] (drop (so + nsi) mem') of
           None \<Rightarrow> loop32 mem' so nsi (n + ninc) = Inl CorruptInputError
         | Some rest \<Rightarrow>
             \<exists>buf. loop32 mem' so nsi (n + ninc) = Inr (buf, (n + ninc) + length rest) \<and>
               length buf = length mem' \<and>
               take ((n + ninc) + length rest) buf = take (n + ninc) mem' @ rest"
          by (intro "2.IH"(1) [OF True None _ refl refl]) simp_all
      qed
    next
      case (Some dn)
      from True so have room: "(so + si) + 4 \<le> length mem" "n + 4 \<le> length mem" by linarith+
      from assemble32_Decode_from [OF Some [unfolded dd] room(1)] obtain w where
        w: "dn = w @ [0]" "length w = 3"
          "Decode_from [] (drop (so + si) mem)
             = map_option (\<lambda>r. w @ r) (Decode_from [] (drop (so + si + 4) mem))" by blast
      then have l: "length dn = 4" by simp
      have e: "loop32 mem so si n = loop32 (put_bytes n dn mem) so (si + 4) (n + 3)"
        using True Some by (subst loop32.simps) simp
      have lp: "length (put_bytes n dn mem) = length mem"
        using room(2) l by (simp add: length_put_bytes)
      from n have n': "4 * (n + 3) \<le> 3 * (si + 4)" by simp
      from room(1) so have si': "si + 4 \<le> length (put_bytes n dn mem) - so"
        unfolding lp by linarith
      from so have so': "so \<le> length (put_bytes n dn mem)" unfolding lp .
      note ih = "2.IH"(2) [OF True Some so' si' n']
      show ?thesis unfolding e
      proof (rule fast_path [OF so n, where dn = dn and w = w and k = 3])
        show "so + si + length dn \<le> length mem" "n + length dn \<le> length mem"
          using room l by simp_all
        show "take 3 dn = w" "length w = 3" "3 \<le> length dn" using w(1,2) by simp_all
        show "Decode_from [] (drop (so + si) mem)
            = map_option (\<lambda>r. w @ r) (Decode_from [] (drop (so + si + length dn) mem))"
          using w(3) l by simp
        show "case Decode_from [] (drop (so + (si + length dn)) (put_bytes n dn mem)) of
           None \<Rightarrow> loop32 (put_bytes n dn mem) so (si + 4) (n + 3) = Inl CorruptInputError
         | Some rest \<Rightarrow>
             \<exists>buf. loop32 (put_bytes n dn mem) so (si + 4) (n + 3) = Inr (buf, (n + 3) + length rest) \<and>
               length buf = length (put_bytes n dn mem) \<and>
               take ((n + 3) + length rest) buf = take (n + 3) (put_bytes n dn mem) @ rest"
          using ih l by simp
      qed
    qed
  qed
next
  case (3 mem so si n)
  note so = "3.prems"(1) and si = "3.prems"(2) and n = "3.prems"(3)
  show ?case
  proof (cases "si < length mem - so")
    case False
    with si so have "drop (so + si) mem = []" by simp
    moreover from False have "loop_rest mem so si n = Inr (mem, n)"
      by (subst loop_rest.simps) simp
    ultimately show ?thesis by simp
  next
    case True
    have e: "loop_rest mem so si n =
        (case decodeQuantum mem so si n of
           Inl err \<Rightarrow> Inl err
         | Inr (mem', nsi, ninc) \<Rightarrow> loop_rest mem' so nsi (n + ninc))"
      using True by (subst loop_rest.simps) simp
    show ?thesis unfolding e
    proof (rule quantum_path [OF so si n])
      fix mem' nsi ninc
      assume "decodeQuantum mem so si n = Inr (mem', nsi, ninc)" "so \<le> length mem'"
        "nsi \<le> length mem' - so" "4 * (n + ninc) \<le> 3 * nsi"
      then show "case Decode_from [] (drop (so + nsi) mem') of
         None \<Rightarrow> loop_rest mem' so nsi (n + ninc) = Inl CorruptInputError
       | Some rest \<Rightarrow>
           \<exists>buf. loop_rest mem' so nsi (n + ninc) = Inr (buf, (n + ninc) + length rest) \<and>
             length buf = length mem' \<and>
             take ((n + ninc) + length rest) buf = take (n + ninc) mem' @ rest"
        by (intro "3.IH" [OF True _ refl refl]) simp_all
    qed
  qed
qed

text \<open>
  The run of \<^verbatim>\<open>Decode\<close> on a buffer that holds its own source at offset \<open>so\<close> agrees with
  standard decoding: it fails exactly when the source is not a base64 text, never goes out
  of range, and otherwise leaves the decoded bytes at the start of the buffer, returns their
  number, and keeps the length of the buffer.
\<close>

lemma Decode_buffer_refines:
  "case Decode (drop so mem) of
     None \<Rightarrow> Decode_buffer mem so = Inl CorruptInputError
   | Some out \<Rightarrow>
       \<exists>buf. Decode_buffer mem so = Inr (buf, length out) \<and> length buf = length mem \<and>
         take (length out) buf = out"
proof (cases "length mem - so = 0")
  case True
  then have "drop so mem = []" by simp
  with True show ?thesis by (simp add: Decode_buffer_def Decode_def)
next
  case False
  then have so: "so \<le> length mem" by simp
  have d: "Decode_buffer mem so = loop64 mem so 0 0" using False by (simp add: Decode_buffer_def)
  from loops_refine(1) [OF so, of 0 0] show ?thesis
    unfolding d Decode_def by (cases "Decode_from [] (drop so mem)") simp_all
qed

text \<open>Runs of the library's \<^verbatim>\<open>Decode\<close> on a buffer that holds the source at an offset:
  the decoded bytes stand at the start of the buffer; the fast paths leave one or two zero
  bytes behind them; everything else is as it was.\<close>

lemmas Decode_buffer_eval =
  Decode_buffer_def loop64.simps loop32.simps loop_rest.simps bytes_def assemble64_def
  assemble32_def decodeQuantum_def quantum_loop.simps put_bytes_def quantum_bytes_def
  decodeMap_def encodeStd_def Let_def skip_newlines_def is_newline_def

lemma Decode_buffer_examples:
  "Decode_buffer (bytes ''data:image/png;base64,QUJD'') 22
     = Inr (bytes ''ABC'' @ [0] @ bytes '':image/png;base64,QUJD'', 3)"
  "Decode_buffer (bytes ''data:image/png;base64,QUJDREVG'') 22
     = Inr (bytes ''ABCDEF'' @ [0, 0] @ bytes ''ge/png;base64,QUJDREVG'', 6)"
  "Decode_buffer (bytes ''base64,QUJDREVGRw=='') 7
     = Inr (bytes ''ABCDEFG'' @ [0] @ bytes ''UJDREVGRw=='', 7)"
  "Decode_buffer (bytes ''base64,QUI='') 7 = Inr (bytes ''AB'' @ bytes ''se64,QUI='', 2)"
  "Decode_buffer (bytes ''base64,QU'' @ [13, 10] @ bytes ''JD'' @ [10]) 7
     = Inr (bytes ''ABC'' @ bytes ''e64,QU'' @ [13, 10] @ bytes ''JD'' @ [10], 3)"
  "Decode_buffer (bytes ''base64,'') 7 = Inr (bytes ''base64,'', 0)"
  "Decode_buffer (bytes ''base64,QUJ'') 7 = Inl CorruptInputError"
  "Decode_buffer (bytes ''base64,QQ='') 7 = Inl CorruptInputError"
  "Decode_buffer (bytes ''base64,QUI=QUJD'') 7 = Inl CorruptInputError"
  "Decode_buffer (bytes ''base64,QU JD'') 7 = Inl CorruptInputError"
  by (simp_all add: Decode_buffer_eval)

text \<open>
  What the stage does with a buffer that holds the marker: the first occurrence is found,
  the bytes behind it are decoded, a payload the decoder rejects ends the program with
  the base64 failure, and otherwise the decoded bytes stand at the start of the buffer
  that goes on to the image decoder, which has the length of the whole input.
\<close>

lemma decode_in_place_found:
  assumes "Index data (bytes ''base64,'') = idx" and "idx \<noteq> - 1"
  shows "0 \<le> idx \<and> nat idx \<le> length data
    \<and> prefix (bytes ''base64,'') (drop (nat idx) data)
    \<and> (\<forall>j < nat idx. \<not> prefix (bytes ''base64,'') (drop j data))
    \<and> (case Decode (drop (nat idx + 7) data) of
          None \<Rightarrow> decode_in_place data = Inl Base64DecodeError
        | Some decoded \<Rightarrow>
            (\<exists>buf. decode_in_place data = Inr buf \<and> length buf = length data \<and>
               take (length decoded) buf = decoded))"
proof -
  from Index_from_found [of 0 data "bytes ''base64,''" idx] assms
  have f: "0 \<le> idx" "nat idx \<le> length data" "prefix (bytes ''base64,'') (drop (nat idx) data)"
    "\<forall>j < nat idx. \<not> prefix (bytes ''base64,'') (drop j data)"
    by (simp_all add: Index_def)
  have n: "nat (idx + int (length (bytes ''base64,''))) = nat idx + 7"
    using f(1) by (simp add: bytes_def)
  have d: "decode_in_place data =
        (case Decode_buffer data (nat idx + 7) of
           Inl CorruptInputError \<Rightarrow> Inl Base64DecodeError
         | Inl RangePanic \<Rightarrow> Inl IndexRangePanic
         | Inr (dataBuffer, n) \<Rightarrow> Inr dataBuffer)"
    using assms f(1) by (simp add: decode_in_place_def Let_def n)
  have "case Decode (drop (nat idx + 7) data) of
          None \<Rightarrow> decode_in_place data = Inl Base64DecodeError
        | Some decoded \<Rightarrow>
            (\<exists>buf. decode_in_place data = Inr buf \<and> length buf = length data \<and>
               take (length decoded) buf = decoded)"
  proof (cases "Decode (drop (nat idx + 7) data)")
    case None
    with Decode_buffer_refines [where so = "nat idx + 7" and mem = data] show ?thesis by (simp add: d)
  next
    case (Some decoded)
    with Decode_buffer_refines [where so = "nat idx + 7" and mem = data] obtain buf where
      "Decode_buffer data (nat idx + 7) = Inr (buf, length decoded)" "length buf = length data"
      "take (length decoded) buf = decoded" by auto
    with Some show ?thesis by (simp add: d)
  qed
  with f show ?thesis by simp
qed

text \<open>The stage never ends in a panic of the decoder.\<close>

lemma decode_in_place_no_panic: "decode_in_place data \<noteq> Inl IndexRangePanic"
proof (cases "Index data (bytes ''base64,'') = - 1")
  case True
  then show ?thesis by (simp add: decode_in_place_def Let_def)
next
  case False
  from decode_in_place_found [OF refl False] show ?thesis
    by (cases "Decode (drop (nat (Index data (bytes ''base64,'')) + 7) data)") auto
qed

lemma decode_in_place_absent:
  "Index data (bytes ''base64,'') = - 1 \<Longrightarrow> decode_in_place data = Inr data"
  by (simp add: decode_in_place_def Let_def)

text \<open>In the round trip of \<^verbatim>\<open>main\<close> the buffer that reaches the image decoder starts
  with the encoded image and has the length of the data URI: it is always longer than the
  encoded image.\<close>

lemma Index_png_uri:
  "Index (bytes (''data:image/png;base64,'' @ payload)) (bytes ''base64,'') = 15"
  by (simp add: Index_def bytes_def)

lemma round_trip_buffer_png:
  fixes buff :: "uint8 list"
  defines "uri \<equiv> bytes (''data:image/png;base64,'' @ EncodeToString buff)"
  shows "\<exists>buf. decode_in_place uri = Inr buf \<and> take (length buff) buf = buff \<and>
           length buf = length uri \<and> length buff < length buf"
proof -
  have i: "Index uri (bytes ''base64,'') = 15" unfolding uri_def by (rule Index_png_uri)
  have d: "drop (nat 15 + 7) uri = bytes (EncodeToString buff)"
    by (simp add: uri_def bytes_def)
  from decode_in_place_found [OF i] obtain buf where
    b: "decode_in_place uri = Inr buf" "length buf = length uri" "take (length buff) buf = buff"
    unfolding d by (auto simp add: Decode_EncodeToString)
  from length_Decode [OF Decode_EncodeToString [of buff]]
  have "length buff \<le> length (EncodeToString buff)" by (simp add: bytes_def)
  then have "length buff < length uri" by (simp add: uri_def bytes_def)
  with b show ?thesis by auto
qed

text \<open>
  Claim C8. \<^verbatim>\<open>decodeImageFromBase64\<close> finds the first \<^verbatim>\<open>base64,\<close>, decodes exactly the
  bytes after it, and hands the decoded bytes to the image decoder. The code hands over
  more: for the data URI \<^verbatim>\<open>data:image/png;base64,QUJD\<close> the payload decodes to the three
  bytes \<^verbatim>\<open>ABC\<close>, and the image decoder receives a buffer of 26 bytes that starts with them.
\<close>

theorem data_uri_buffer_keeps_tail:
  "Index (bytes ''data:image/png;base64,QUJD'') (bytes ''base64,'') = 15
   \<and> Decode (bytes ''QUJD'') = Some (bytes ''ABC'')
   \<and> (\<exists>buf. decode_in_place (bytes ''data:image/png;base64,QUJD'') = Inr buf
         \<and> decodeImageFromBase64 cd (bytes ''data:image/png;base64,QUJD'') w
             = run_decoder cd image_Decode buf w
         \<and> take 3 buf = bytes ''ABC'' \<and> length buf = 26 \<and> buf \<noteq> bytes ''ABC'')"
proof -
  let ?buf = "bytes ''ABC'' @ [0] @ bytes '':image/png;base64,QUJD''"
  have i: "Index (bytes ''data:image/png;base64,QUJD'') (bytes ''base64,'') = 15"
    by (simp add: Index_def bytes_def)
  have d: "Decode (bytes ''QUJD'') = Some (bytes ''ABC'')"
    by (simp add: Decode_def bytes_def decodeMap_def encodeStd_def quantum_bytes_def is_newline_def)
  have l: "length (bytes ''base64,'') = 7" by (simp add: bytes_def)
  have r: "Decode_buffer (bytes ''data:image/png;base64,QUJD'') 22 = Inr (?buf, 3)"
    by (simp add: Decode_buffer_eval)
  have p: "decode_in_place (bytes ''data:image/png;base64,QUJD'') = Inr ?buf"
    by (simp add: decode_in_place_def Let_def i l r)
  have t: "sniff_type (bytes ''data:image/png;base64,QUJD'') = PNG"
    by (simp add: sniff_type_def Index_def bytes_def)
  have "decodeImageFromBase64 cd (bytes ''data:image/png;base64,QUJD'') w
      = run_decoder cd image_Decode ?buf w"
    by (simp add: decodeImageFromBase64_def Let_def p t)
  moreover have "take 3 ?buf = bytes ''ABC''" "length ?buf = 26" "?buf \<noteq> bytes ''ABC''"
    by (simp_all add: bytes_def)
  ultimately show ?thesis using i d p by blast
qed

section \<open>Properties of the pipeline driver\<close>

lemma files_record_call [simp]: "files (record_call e w) = files w"
  by (simp add: record_call_def)

lemma can_create_record_call [simp]: "can_create (record_call e w) = can_create w"
  by (simp add: record_call_def)

lemma can_remove_record_call [simp]: "can_remove (record_call e w) = can_remove w"
  by (simp add: record_call_def)

lemma stat_other_record_call [simp]: "stat_other (record_call e w) = stat_other w"
  by (simp add: record_call_def)

lemma trace_record_call [simp]: "trace (record_call e w) = trace w @ [e]"
  by (simp add: record_call_def)

lemma Stat_record_call [simp]: "Stat (record_call e w) p = Stat w p"
  by (simp add: Stat_def)

lemma parse_args_two: "parse_args cm [prog, fileName] = Inr (fileName, False)"
  by (simp add: parse_args_def)

lemma main_parsed:
  assumes "parse_args cm Args = Inr (fileName, flag)" and "Ext fileName \<noteq> []"
    and "imageType = getImageType cm (drop 1 (Ext fileName))"
    and "stem = take (length fileName - length (Ext fileName)) fileName"
  shows "main cm cd Args w = run_pipeline cd fileName imageType stem flag w"
  using assms by (simp add: main_def Let_def)

lemma main_no_extension:
  "parse_args cm Args = Inr (fileName, flag) \<Longrightarrow> Ext fileName = [] \<Longrightarrow>
   main cm cd Args w = (Some SliceBoundsPanic, w)"
  by (simp add: main_def Let_def)

lemma loadImage_UNSUPPORTED:
  "loadImage cd fileName UNSUPPORTED w =
     (Inl (if files w fileName = None then FileSystemError OpOpen else UnsupportedFormatError),
      record_call (EvOpen fileName) w)"
  by (simp add: loadImage_def Let_def split: option.split)

lemma loadImage_files: "loadImage cd fileName t w = (r, w1) \<Longrightarrow> files w1 = files w"
  by (auto simp: loadImage_def run_decoder_def Let_def split: option.splits ImageType.splits)

lemma run_decoder_files: "run_decoder cd d content w = (r, w1) \<Longrightarrow> files w1 = files w"
  by (auto simp: run_decoder_def split: option.splits)

lemma round_trip_files: "round_trip cd flag img t w = (r, w1) \<Longrightarrow> files w1 = files w"
  by (auto simp: round_trip_def encodeImageToBase64_def encode_as_def decodeImageFromBase64_def
      Let_def split: if_splits option.splits ImageType.splits sum.splits prod.splits
      dest!: run_decoder_files)

lemma createFile_Inr:
  "createFile p w = (Inr u, w1) \<Longrightarrow> files w1 = (files w)(p \<mapsto> [])"
  by (auto simp: createFile_def Let_def split: if_splits)

text \<open>Where \<^verbatim>\<open>os.Stat\<close> fails with an error other than "not exist", the program goes on
  to \<^verbatim>\<open>os.Remove\<close>, and ends there when the removal fails.\<close>

lemma createFile_stat_error:
  "Stat w p = StatOtherError \<Longrightarrow> \<not> can_remove w p \<Longrightarrow>
   createFile p w
     = (Inl (FileSystemError OpRemove), record_call (EvRemove p) (record_call (EvStat p) w))"
  by (simp add: createFile_def Let_def)

lemma createFile_fresh:
  "Stat w p = StatNotExist \<Longrightarrow>
   createFile p w =
     (let w3 = record_call (EvCreate p) (record_call (EvStat p) w)
      in if can_create w p then (Inr (), w3\<lparr>files := (files w3)(p \<mapsto> [])\<rparr>)
         else (Inl (FileSystemError OpCreate), w3))"
  by (simp add: createFile_def Let_def)

lemma save_output_success:
  assumes "save_output cd stem rgba w = (None, w2)"
  shows "\<exists>png. encode_with cd PNG (as_Image rgba) = Some png \<and>
           files w2 = (files w)(''out__'' @ stem @ ''.png'' \<mapsto> png)"
proof -
  let ?out = "''out__'' @ stem @ ''.png''"
  from assms obtain u w1 where c: "createFile ?out w = (Inr u, w1)"
    by (cases "createFile ?out w") (auto simp: save_output_def Let_def split: sum.splits)
  then have f: "files w1 = (files w)(?out \<mapsto> [])" by (rule createFile_Inr)
  from assms c obtain png where "encode_with cd PNG (as_Image rgba) = Some png"
    and "w2 = record_call (EvEncode PNG) (w1\<lparr>files := (files w1)(?out \<mapsto> png)\<rparr>)"
    by (auto simp: save_output_def Let_def split: option.splits)
  with f show ?thesis by simp
qed

lemma transform_and_save_success:
  assumes "transform_and_save cd stem img w = (None, w2)"
  shows "\<exists>rgba png. makeBackgroundTransparent img = (True, Some rgba) \<and>
           encode_with cd PNG (as_Image rgba) = Some png \<and>
           files w2 = (files w)(''out__'' @ stem @ ''.png'' \<mapsto> png)"
proof -
  from assms obtain rgba where m: "makeBackgroundTransparent img = (True, Some rgba)"
    and s: "save_output cd stem rgba w = (None, w2)"
    by (cases "makeBackgroundTransparent img")
      (auto simp: transform_and_save_def split: if_splits option.splits)
  from save_output_success [OF s] m show ?thesis by blast
qed

lemma run_pipeline_success:
  assumes "run_pipeline cd fileName t stem flag w = (None, w2)"
  shows "\<exists>img rgba png. makeBackgroundTransparent img = (True, Some rgba) \<and>
           encode_with cd PNG (as_Image rgba) = Some png \<and>
           files w2 = (files w)(''out__'' @ stem @ ''.png'' \<mapsto> png)"
proof -
  from assms obtain img w1 img2 w1' where l: "loadImage cd fileName t w = (Inr img, w1)"
    and r: "round_trip cd flag img t w1 = (Inr img2, w1')"
    and t: "transform_and_save cd stem img2 w1' = (None, w2)"
    by (cases "loadImage cd fileName t w")
      (auto simp: run_pipeline_def split: sum.splits prod.splits)
  from l have "files w1 = files w" by (rule loadImage_files)
  moreover from r have "files w1' = files w1" by (rule round_trip_files)
  ultimately show ?thesis using transform_and_save_success [OF t] by fastforce
qed

lemma transform_and_save_not_applied:
  "fst (makeBackgroundTransparent img) = False \<Longrightarrow>
   transform_and_save cd stem img w = (Some AlreadyTransparentError, w)"
  by (cases "makeBackgroundTransparent img") (simp add: transform_and_save_def)

lemma main_not_applied:
  assumes "parse_args cm Args = Inr (fileName, flag)" and "Ext fileName \<noteq> []"
    and "loadImage cd fileName (getImageType cm (drop 1 (Ext fileName))) w = (Inr loaded, w1)"
    and "round_trip cd flag loaded (getImageType cm (drop 1 (Ext fileName))) w1 = (Inr img, w2)"
    and "fst (makeBackgroundTransparent img) = False"
  shows "main cm cd Args w = (Some AlreadyTransparentError, w2) \<and> files w2 = files w"
proof -
  have "main cm cd Args w = run_pipeline cd fileName (getImageType cm (drop 1 (Ext fileName)))
      (take (length fileName - length (Ext fileName)) fileName) flag w"
    using assms(1,2) by (rule main_parsed) simp_all
  with assms(3,4,5) have "main cm cd Args w = (Some AlreadyTransparentError, w2)"
    by (simp add: run_pipeline_def transform_and_save_not_applied)
  moreover from assms(3) have "files w1 = files w" by (rule loadImage_files)
  moreover from assms(4) have "files w2 = files w1" by (rule round_trip_files)
  ultimately show ?thesis by simp
qed

lemma run_pipeline_scenario:
  assumes "files w fileName = Some [0]" and "can_create w (''out__'' @ stem @ ''.png'')"
    and "can_remove w (''out__'' @ stem @ ''.png'')"
  shows "\<exists>w2. run_pipeline sample_codecs fileName PNG stem False w = (None, w2) \<and>
           files w2 = (files w)(''out__'' @ stem @ ''.png'' \<mapsto> [2])"
proof -
  let ?out = "''out__'' @ stem @ ''.png''"
  obtain out where m: "makeBackgroundTransparent scenario_image = (True, Some out)"
    using makeBackgroundTransparent_scenario by blast
  have l: "loadImage sample_codecs fileName PNG w
      = (Inr scenario_image, record_call (EvDecode image_Decode) (record_call (EvOpen fileName) w))"
    using assms(1) by (simp add: loadImage_def run_decoder_def sample_codecs_def Let_def)
  let ?w1 = "record_call (EvDecode image_Decode) (record_call (EvOpen fileName) w)"
  have "\<exists>w1. createFile ?out ?w1 = (Inr (), w1) \<and> files w1 = (files w)(?out \<mapsto> [])"
    using assms(2,3) by (simp add: createFile_def Let_def)
  then obtain w1 where c: "createFile ?out ?w1 = (Inr (), w1)"
    "files w1 = (files w)(?out \<mapsto> [])" by blast
  then have "\<exists>w2. save_output sample_codecs stem out ?w1 = (None, w2)
      \<and> files w2 = (files w)(?out \<mapsto> [2])"
    by (simp add: save_output_def Let_def sample_codecs_def)
  then obtain w2 where "save_output sample_codecs stem out ?w1 = (None, w2)"
    "files w2 = (files w)(?out \<mapsto> [2])" by blast
  then show ?thesis
    by (simp add: run_pipeline_def l round_trip_def transform_and_save_def m)
qed

text \<open>The same run where nothing is at the output path: the calls it makes, and how it
  ends when the file can be created and when it cannot.\<close>

lemma run_pipeline_fresh_output:
  assumes "files w fileName = Some [0]" and "Stat w (''out__'' @ stem @ ''.png'') = StatNotExist"
  shows "trace (snd (run_pipeline sample_codecs fileName PNG stem False w))
       = trace w @ [EvOpen fileName, EvDecode image_Decode, EvStat (''out__'' @ stem @ ''.png''),
                    EvCreate (''out__'' @ stem @ ''.png'')]
         @ (if can_create w (''out__'' @ stem @ ''.png'') then [EvEncode PNG] else [])"
    and "can_create w (''out__'' @ stem @ ''.png'') \<Longrightarrow>
       fst (run_pipeline sample_codecs fileName PNG stem False w) = None \<and>
       files (snd (run_pipeline sample_codecs fileName PNG stem False w))
         = (files w)(''out__'' @ stem @ ''.png'' \<mapsto> [2])"
    and "\<not> can_create w (''out__'' @ stem @ ''.png'') \<Longrightarrow>
       fst (run_pipeline sample_codecs fileName PNG stem False w) = Some (FileSystemError OpCreate) \<and>
       files (snd (run_pipeline sample_codecs fileName PNG stem False w)) = files w"
proof -
  let ?out = "''out__'' @ stem @ ''.png''"
  let ?w1 = "record_call (EvDecode image_Decode) (record_call (EvOpen fileName) w)"
  obtain out where m: "makeBackgroundTransparent scenario_image = (True, Some out)"
    using makeBackgroundTransparent_scenario by blast
  have l: "loadImage sample_codecs fileName PNG w = (Inr scenario_image, ?w1)"
    using assms(1) by (simp add: loadImage_def run_decoder_def sample_codecs_def Let_def)
  have st: "Stat ?w1 ?out = StatNotExist" using assms(2) by simp
  have r: "run_pipeline sample_codecs fileName PNG stem False w = save_output sample_codecs stem out ?w1"
    by (simp add: run_pipeline_def l round_trip_def transform_and_save_def m)
  note cf = createFile_fresh [OF st]
  show "trace (snd (run_pipeline sample_codecs fileName PNG stem False w))
       = trace w @ [EvOpen fileName, EvDecode image_Decode, EvStat ?out, EvCreate ?out]
         @ (if can_create w ?out then [EvEncode PNG] else [])"
    unfolding r using cf by (simp add: save_output_def Let_def sample_codecs_def)
  show "fst (run_pipeline sample_codecs fileName PNG stem False w) = None \<and>
       files (snd (run_pipeline sample_codecs fileName PNG stem False w)) = (files w)(?out \<mapsto> [2])"
    if "can_create w ?out"
    unfolding r using that cf by (simp add: save_output_def Let_def sample_codecs_def)
  show "fst (run_pipeline sample_codecs fileName PNG stem False w) = Some (FileSystemError OpCreate) \<and>
       files (snd (run_pipeline sample_codecs fileName PNG stem False w)) = files w"
    if "\<not> can_create w ?out"
    unfolding r using that cf by (simp add: save_output_def Let_def sample_codecs_def)
qed

lemma main_png:
  assumes "Ext fileName = ''.png''"
  shows "main cm cd [prog, fileName] w
     = run_pipeline cd fileName PNG (take (length fileName - length ''.png'') fileName) False w"
  using parse_args_two [of cm prog fileName]
  by (rule main_parsed)
    (simp_all add: assms getImageType_def ToLower_def isASCII_def lower_byte_def)

lemma main_sample:
  assumes "files sample_world fileName = Some [0]" and "Ext fileName = ''.png''"
    and "CHR ''/'' \<notin> set fileName"
  shows "\<exists>w2. main cm sample_codecs [prog, fileName] sample_world = (None, w2) \<and>
     files w2 = (files sample_world)
       (''out__'' @ take (length fileName - length ''.png'') fileName @ ''.png'' \<mapsto> [2])"
proof -
  let ?out = "''out__'' @ take (length fileName - length ''.png'') fileName @ ''.png''"
  from assms(3) have "CHR ''/'' \<notin> set (take (length fileName - length ''.png'') fileName)"
    by (auto dest: in_set_takeD)
  then have "CHR ''/'' \<notin> set ?out" by simp
  then have "can_create sample_world ?out" "can_remove sample_world ?out"
    by (simp_all add: sample_world_def)
  with run_pipeline_scenario [OF assms(1)] show ?thesis
    by (simp only: main_png [OF assms(2)])
qed

text \<open>
  When the transform is not applied: this is exactly when the image as the code converts
  it has a pixel that is not opaque, no image comes back, and \<^verbatim>\<open>main\<close> ends with the
  already-transparent failure and writes no file. The transform run on its own output,
  when that is no longer opaque, is not applied.
\<close>

lemma not_applied_converted:
  "(fst (makeBackgroundTransparent img) = False \<longleftrightarrow>
      (\<exists>x y. In (Pt x y) (Rect (convertRGBA img)) \<and> A (RGBAAt (convertRGBA img) x y) \<noteq> 255))
   \<and> (fst (makeBackgroundTransparent img) = False \<longrightarrow>
        makeBackgroundTransparent img = (False, None))
   \<and> (\<forall>out. makeBackgroundTransparent img = (True, Some out) \<and> \<not> Opaque out \<longrightarrow>
        makeBackgroundTransparent (as_Image out) = (False, None))"
proof (intro conjI allI impI)
  show "fst (makeBackgroundTransparent img) = False \<longleftrightarrow>
      (\<exists>x y. In (Pt x y) (Rect (convertRGBA img)) \<and> A (RGBAAt (convertRGBA img) x y) \<noteq> 255)"
    by (simp only: makeBackgroundTransparent_fst not_Opaque_iff [symmetric]) simp
next
  assume "fst (makeBackgroundTransparent img) = False"
  then have "\<not> Opaque (convertRGBA img)" by (simp add: makeBackgroundTransparent_fst)
  then show "makeBackgroundTransparent img = (False, None)"
    by (rule makeBackgroundTransparent_not_Opaque)
next
  fix out
  assume "makeBackgroundTransparent img = (True, Some out) \<and> \<not> Opaque out"
  then show "makeBackgroundTransparent (as_Image out) = (False, None)"
    using rerun_not_applied by blast
qed

lemma main_clear_sample:
  "makeBackgroundTransparent transparent_image = (False, None)
   \<and> main cm sample_codecs [''make-image-transparent'', ''clear.png''] sample_world
       = (Some AlreadyTransparentError,
          record_call (EvDecode image_Decode) (record_call (EvOpen ''clear.png'') sample_world))"
proof -
  have org: "rMin (Bounds transparent_image) = ZP" by (simp add: transparent_image_def ZP_def)
  have "In (Pt 0 0) (Rect (convertRGBA transparent_image))"
    by (simp add: transparent_image_def In_def Pt_def)
  moreover from this have "A (RGBAAt (convertRGBA transparent_image) 0 0) \<noteq> 255"
    by (simp add: RGBAAt_convertRGBA_origin [OF org]) (simp add: transparent_image_def)
  ultimately have "\<not> Opaque (convertRGBA transparent_image)" unfolding not_Opaque_iff by blast
  then have m: "makeBackgroundTransparent transparent_image = (False, None)"
    by (rule makeBackgroundTransparent_not_Opaque)
  let ?w1 = "record_call (EvDecode image_Decode) (record_call (EvOpen ''clear.png'') sample_world)"
  have l: "loadImage sample_codecs ''clear.png'' PNG sample_world = (Inr transparent_image, ?w1)"
    by (simp add: loadImage_def run_decoder_def sample_codecs_def sample_world_def Let_def)
  have "main cm sample_codecs [''make-image-transparent'', ''clear.png''] sample_world
      = (Some AlreadyTransparentError, ?w1)"
    by (simp add: main_png Ext_examples run_pipeline_def l round_trip_def
        transform_and_save_def m)
  with m show ?thesis by simp
qed

text \<open>Read on the pixels of the input image, the condition holds for every image whose
  bounds start at the origin.\<close>

lemma has_non_opaque_pixel_iff:
  "has_non_opaque_pixel img \<longleftrightarrow> (\<exists>x y. In (Pt x y) (Bounds img) \<and> A (At img x y) \<noteq> 255)"
  by (fastforce simp: has_non_opaque_pixel_def list_ex_iff In_def Pt_def)

lemma origin_not_applied_iff:
  assumes "rMin (Bounds img) = ZP"
  shows "fst (makeBackgroundTransparent img) = False \<longleftrightarrow> has_non_opaque_pixel img"
  by (simp add: makeBackgroundTransparent_fst Opaque_iff has_non_opaque_pixel_iff
      RGBAAt_convertRGBA_origin [OF assms])

text \<open>
  Claim C3. \<^verbatim>\<open>makeBackgroundTransparent\<close> returns applied = false exactly when the image
  has a pixel that is not opaque, and the caller then ends with the already-transparent
  failure. The code does not do so for an image whose bounds do not start at (0,0): the
  strip of two opaque grey pixels with bounds (0,2)-(2,3) has no pixel that is not
  opaque, yet the transform returns \<^verbatim>\<open>(false, nil)\<close> and lines 286 to 289 of \<^verbatim>\<open>main\<close> end
  the program with "image not converted - it was probably already transparent".
\<close>

theorem opaque_strip_reported_transparent:
  "Bounds strip_image = \<lparr>rMin = \<lparr>X = 0, Y = 2\<rparr>, rMax = \<lparr>X = 2, Y = 3\<rparr>\<rparr>
   \<and> At strip_image 0 2 = \<lparr>R = 128, G = 128, B = 128, A = 255\<rparr>
   \<and> At strip_image 1 2 = \<lparr>R = 128, G = 128, B = 128, A = 255\<rparr>
   \<and> \<not> has_non_opaque_pixel strip_image
   \<and> makeBackgroundTransparent strip_image = (False, None)
   \<and> transform_and_save cd fileNameNoExt strip_image w = (Some AlreadyTransparentError, w)"
proof -
  have b: "Bounds strip_image = \<lparr>rMin = \<lparr>X = 0, Y = 2\<rparr>, rMax = \<lparr>X = 2, Y = 3\<rparr>\<rparr>"
    by (simp add: strip_image_def)
  have n: "\<not> has_non_opaque_pixel strip_image"
    by (simp add: has_non_opaque_pixel_iff) (simp add: strip_image_def)
  have "RGBAAt (convertRGBA strip_image) 0 2 = RGBA_zero"
    by (simp add: RGBAAt_convertRGBA b In_def Pt_def)
  moreover have "In (Pt 0 2) (Rect (convertRGBA strip_image))"
    by (simp add: b In_def Pt_def)
  ultimately have "\<not> Opaque (convertRGBA strip_image)"
    by (rule not_Opaque_zero [rotated])
  then have m: "makeBackgroundTransparent strip_image = (False, None)"
    by (rule makeBackgroundTransparent_not_Opaque)
  then have "transform_and_save cd fileNameNoExt strip_image w = (Some AlreadyTransparentError, w)"
    by (simp add: transform_and_save_def)
  with b n m show ?thesis by (simp add: strip_image_def)
qed

text \<open>
  Claim C7, amended. For every input path with a non-empty extension that maps to
  UNSUPPORTED (and well-formed arguments), the program opens the file and calls no
  decoder: it fails with the unsupported-format error when the file can be opened, and
  with the failure of the open otherwise; the only call it makes is the open.
\<close>

theorem unsupported_extension_fails:
  assumes "parse_args cm Args = Inr (fileName, flag)"
    and "Ext fileName \<noteq> []"
    and "getImageType cm (drop 1 (Ext fileName)) = UNSUPPORTED"
  shows "fst (main cm cd Args w) =
       Some (if files w fileName = None then FileSystemError OpOpen else UnsupportedFormatError)
     \<and> trace (snd (main cm cd Args w)) = trace w @ [EvOpen fileName]
     \<and> files (snd (main cm cd Args w)) = files w"
proof -
  have "main cm cd Args w = run_pipeline cd fileName UNSUPPORTED
      (take (length fileName - length (Ext fileName)) fileName) flag w"
    using assms(1,2) by (rule main_parsed) (use assms(3) in simp_all)
  then show ?thesis by (simp add: run_pipeline_def loadImage_UNSUPPORTED record_call_def)
qed

theorem unsupported_extension_fails_witness:
  "fst (main sample_lower sample_codecs [''make-image-transparent'', ''notes.xyz''] sample_world)
     = Some UnsupportedFormatError
   \<and> trace (snd (main sample_lower sample_codecs [''make-image-transparent'', ''notes.xyz''] sample_world))
       = [EvOpen ''notes.xyz'']"
proof -
  have "getImageType sample_lower (drop 1 (Ext ''notes.xyz'')) = UNSUPPORTED"
    by (simp add: Ext_examples getImageType_def ToLower_def isASCII_def lower_byte_def)
  moreover have "Ext ''notes.xyz'' \<noteq> []" by (simp add: Ext_examples)
  ultimately show ?thesis
    using unsupported_extension_fails [of sample_lower "[''make-image-transparent'', ''notes.xyz'']"
        "''notes.xyz''" False sample_codecs sample_world]
    by (simp add: parse_args_two sample_world_def)
qed

text \<open>The claim as it was stated fails where the file cannot be opened: the program
  then reports the open, not the format.\<close>

theorem unsupported_extension_counterexample:
  "getImageType sample_lower (drop 1 (Ext ''missing.xyz'')) = UNSUPPORTED
   \<and> fst (main sample_lower sample_codecs [''make-image-transparent'', ''missing.xyz''] sample_world)
       = Some (FileSystemError OpOpen)
   \<and> fst (main sample_lower sample_codecs [''make-image-transparent'', ''missing.xyz''] sample_world)
       \<noteq> Some UnsupportedFormatError"
  by (simp add: main_def Let_def parse_args_two Ext_examples getImageType_def ToLower_def
      isASCII_def lower_byte_def run_pipeline_def loadImage_def sample_world_def)

text \<open>
  Every successful run writes one file, the PNG encoding of the transformed image, at the
  path \<^verbatim>\<open>out__\<close> followed by the input path without its extension and \<^verbatim>\<open>.png\<close>,
  replacing what was there; no other file changes. For an input path with no directory
  part this is \<^verbatim>\<open>out__<input-basename-without-extension>.png\<close>.
\<close>

lemma main_writes_output:
  assumes "main cm cd Args w = (None, w2)"
  shows "\<exists>fileName flag stem img rgba png.
           parse_args cm Args = Inr (fileName, flag) \<and>
           fileName = stem @ Ext fileName \<and>
           makeBackgroundTransparent img = (True, Some rgba) \<and>
           encode_with cd PNG (as_Image rgba) = Some png \<and>
           files w2 = (files w)(''out__'' @ stem @ ''.png'' \<mapsto> png) \<and>
           (CHR ''/'' \<notin> set fileName \<longrightarrow> ''out__'' @ stem @ ''.png'' = spec_output_name fileName)"
proof -
  from assms obtain fileName flag where p: "parse_args cm Args = Inr (fileName, flag)"
    by (cases "parse_args cm Args") (auto simp: main_def)
  let ?stem = "take (length fileName - length (Ext fileName)) fileName"
  from assms p have "Ext fileName \<noteq> []"
    by (auto simp: main_def Let_def)
  with assms p have "run_pipeline cd fileName (getImageType cm (drop 1 (Ext fileName))) ?stem flag w
      = (None, w2)"
    by (simp add: main_def Let_def)
  from run_pipeline_success [OF this] obtain img rgba png where
    "makeBackgroundTransparent img = (True, Some rgba)"
    "encode_with cd PNG (as_Image rgba) = Some png"
    "files w2 = (files w)(''out__'' @ ?stem @ ''.png'' \<mapsto> png)" by blast
  moreover have "fileName = ?stem @ Ext fileName" by (simp add: take_Ext)
  moreover have "''out__'' @ ?stem @ ''.png'' = spec_output_name fileName"
    if "CHR ''/'' \<notin> set fileName"
    using that by (simp add: spec_output_name_def basename_no_separator Let_def)
  ultimately show ?thesis using p by blast
qed

lemma main_overwrites_sample:
  "fst (main cm sample_codecs [''make-image-transparent'', ''old.png''] sample_world) = None
   \<and> files sample_world ''out__old.png'' = Some [7, 7]
   \<and> files (snd (main cm sample_codecs [''make-image-transparent'', ''old.png''] sample_world))
       ''out__old.png'' = Some [2]
   \<and> files (snd (main cm sample_codecs [''make-image-transparent'', ''old.png''] sample_world))
       ''old.png'' = Some [0]
   \<and> spec_output_name ''old.png'' = ''out__old.png''"
proof -
  have f: "files sample_world ''old.png'' = Some [0]" by (simp add: sample_world_def)
  from main_sample [OF f, of cm "''make-image-transparent''"] obtain w2
    where r: "main cm sample_codecs [''make-image-transparent'', ''old.png''] sample_world = (None, w2)"
      "files w2 = (files sample_world)(''out__old.png'' \<mapsto> [2])"
    by (auto simp: Ext_examples)
  moreover have "spec_output_name ''old.png'' = ''out__old.png''"
    by (simp add: spec_output_name_def basename_def Ext_def)
  ultimately show ?thesis by (simp add: sample_world_def)
qed

text \<open>
  Claim C9. Every successful run writes one PNG file named
  \<^verbatim>\<open>out__<input-basename-without-extension>.png\<close> to the working directory. The code does
  not do so for an input path with a directory part: it puts \<^verbatim>\<open>out__\<close> in front of the
  whole path. For \<^verbatim>\<open>dir/pic.png\<close> the name of the specification is \<^verbatim>\<open>out__pic.png\<close>, and
  the program tries to create \<^verbatim>\<open>out__dir/pic.png\<close>: where there is no directory
  \<^verbatim>\<open>out__dir\<close> it fails in \<^verbatim>\<open>os.Create\<close> and writes nothing, and where there is one it
  writes the file there and none in the working directory.
\<close>

theorem output_path_keeps_directory:
  "spec_output_name ''dir/pic.png'' = ''out__pic.png''
   \<and> fst (main sample_lower sample_codecs [''make-image-transparent'', ''dir/pic.png''] sample_world)
       = Some (FileSystemError OpCreate)
   \<and> trace (snd (main sample_lower sample_codecs [''make-image-transparent'', ''dir/pic.png'']
               sample_world))
       = [EvOpen ''dir/pic.png'', EvDecode image_Decode, EvStat ''out__dir/pic.png'',
          EvCreate ''out__dir/pic.png'']
   \<and> files (snd (main sample_lower sample_codecs [''make-image-transparent'', ''dir/pic.png'']
               sample_world))
       = files sample_world
   \<and> fst (main sample_lower sample_codecs [''make-image-transparent'', ''dir/pic.png''] out_dir_world)
       = None
   \<and> files (snd (main sample_lower sample_codecs [''make-image-transparent'', ''dir/pic.png'']
               out_dir_world)) ''out__dir/pic.png''
       = Some [2]
   \<and> files (snd (main sample_lower sample_codecs [''make-image-transparent'', ''dir/pic.png'']
               out_dir_world)) ''out__pic.png''
       = None"
proof -
  let ?Args = "[''make-image-transparent'', ''dir/pic.png'']"
  have n: "spec_output_name ''dir/pic.png'' = ''out__pic.png''"
    by (simp add: spec_output_name_def basename_def Ext_def)
  have m: "main sample_lower sample_codecs ?Args w
      = run_pipeline sample_codecs ''dir/pic.png'' PNG ''dir/pic'' False w" for w
    by (simp add: main_png Ext_examples)
  have f: "files sample_world ''dir/pic.png'' = Some [0]"
    "files out_dir_world ''dir/pic.png'' = Some [0]"
    by (simp_all add: sample_world_def out_dir_world_def)
  have st: "Stat sample_world (''out__'' @ ''dir/pic'' @ ''.png'') = StatNotExist"
    "Stat out_dir_world (''out__'' @ ''dir/pic'' @ ''.png'') = StatNotExist"
    by (simp_all add: Stat_def sample_world_def out_dir_world_def)
  have c: "\<not> can_create sample_world (''out__'' @ ''dir/pic'' @ ''.png'')"
    "can_create out_dir_world (''out__'' @ ''dir/pic'' @ ''.png'')"
    by (simp_all add: sample_world_def out_dir_world_def)
  from run_pipeline_fresh_output(1) [OF f(1) st(1)] c(1)
  have 1: "trace (snd (main sample_lower sample_codecs ?Args sample_world))
      = [EvOpen ''dir/pic.png'', EvDecode image_Decode, EvStat ''out__dir/pic.png'',
         EvCreate ''out__dir/pic.png'']"
    by (simp add: m sample_world_def)
  from run_pipeline_fresh_output(3) [OF f(1) st(1) c(1)]
  have 2: "fst (main sample_lower sample_codecs ?Args sample_world) = Some (FileSystemError OpCreate)"
    "files (snd (main sample_lower sample_codecs ?Args sample_world)) = files sample_world"
    by (simp_all add: m)
  from run_pipeline_fresh_output(2) [OF f(2) st(2) c(2)]
  have 3: "fst (main sample_lower sample_codecs ?Args out_dir_world) = None"
    "files (snd (main sample_lower sample_codecs ?Args out_dir_world))
       = (files out_dir_world)(''out__dir/pic.png'' \<mapsto> [2])"
    by (simp_all add: m)
  have 4: "files (snd (main sample_lower sample_codecs ?Args out_dir_world)) ''out__dir/pic.png''
      = Some [2]"
    "files (snd (main sample_lower sample_codecs ?Args out_dir_world)) ''out__pic.png'' = None"
    by (simp_all add: 3(2)) (simp add: out_dir_world_def sample_world_def)
  from n 1 2 3(1) 4 show ?thesis by simp
qed

text \<open>
  Claim C10. For every input file name the extension handling of \<^verbatim>\<open>main\<close> is
  well-defined and reaches format resolution. The code does not do so for a name with no
  dot: \<^verbatim>\<open>filepath.Ext\<close> is empty, \<^verbatim>\<open>fileExt[1:]\<close> is out of range, and the program
  panics before \<^verbatim>\<open>getImageType\<close> is called.
\<close>

theorem no_extension_panics:
  "Ext ''README'' = [] \<and> getImageType cm (Ext ''README'') = UNSUPPORTED
   \<and> main cm cd [''make-image-transparent'', ''README''] w = (Some SliceBoundsPanic, w)"
  by (simp add: main_def Let_def parse_args_two Ext_examples getImageType_def ToLower_Nil)

end
